theory Spec2Isabelle
  imports Main "HOL-Library.Word" "HOL-Library.Sublist"
begin

section \<open>JavaScript strings\<close>

text \<open>
  A JavaScript string is a sequence of UTF-16 code units. The byte-order mark that
  \<open>parseXml\<close> looks for is the single code unit \<open>0xFEFF\<close>, which is why the text layer
  is modelled on 16-bit words and not on 8-bit characters. \<open>js\<close> embeds an ASCII literal.
\<close>

type_synonym jsstring = "16 word list"

definition js :: "string \<Rightarrow> jsstring" where
  "js s = map of_char s"

abbreviation BOM :: "16 word" where "BOM \<equiv> 0xFEFF"
abbreviation LF :: "16 word" where "LF \<equiv> 10"
abbreviation CR :: "16 word" where "CR \<equiv> 13"

text \<open>
  \<open>String.prototype.replaceAll\<close> with a string pattern: the occurrences are found from left
  to right and do not overlap. The source only ever passes a non-empty pattern; for an
  empty one this definition leaves the text as it is.
\<close>

function replaceAll :: "jsstring \<Rightarrow> jsstring \<Rightarrow> jsstring \<Rightarrow> jsstring" where
  "replaceAll [] pat rep = []"
| "replaceAll (c # cs) pat rep =
     (if pat \<noteq> [] \<and> prefix pat (c # cs)
      then rep @ replaceAll (drop (length pat) (c # cs)) pat rep
      else c # replaceAll cs pat rep)"
  by pat_completeness auto
termination
  by (relation "measure (\<lambda>(s, pat, rep). length s)") (auto simp: neq_Nil_conv)

text \<open>\<open>xml.endsWith('\n')\<close>.\<close>

definition endsWithNewLine :: "jsstring \<Rightarrow> bool" where
  "endsWithNewLine s = (s \<noteq> [] \<and> last s = LF)"

text \<open>
  \<open>xml.match(/\r?\n/)\<close>: the leftmost match of an optional carriage return followed by a
  line feed; \<open>None\<close> is JavaScript's \<open>null\<close>.
\<close>

fun matchEol :: "jsstring \<Rightarrow> jsstring option" where
  "matchEol [] = None"
| "matchEol (c # cs) =
     (if c = CR \<and> cs \<noteq> [] \<and> hd cs = LF then Some [CR, LF]
      else if c = LF then Some [LF]
      else matchEol cs)"

section \<open>The document tree\<close>

text \<open>
  The three properties that \<open>parseXml\<close> attaches to the document object.
\<close>

record extra =
  setupBonsaiHadBom :: bool
  setupBonsaiEndsWithNewLine :: bool
  setupBonsaiLineEndings :: jsstring

text \<open>
  The nodes of xmldom. An element has its \<open>namespaceURI\<close> (empty for none), its qualified
  name, its attributes in document order and its children; an attribute of an element is
  given by its \<open>namespaceURI\<close> (empty for none), its qualified name and its value. A
  document has its children and, when it came out of \<open>parseXml\<close>, the extra properties.
  \<open>OtherNode\<close> stands for the remaining kinds with their \<open>nodeType\<close>. The namespace of an
  element or attribute is what the parser made of its prefix; the code never changes it.
\<close>

type_synonym attribute = "jsstring \<times> jsstring \<times> jsstring"

datatype node =
    ElementNS jsstring jsstring "attribute list" "node list"
  | Attr jsstring jsstring
  | Text jsstring
  | CDATASection jsstring
  | ProcessingInstruction jsstring jsstring
  | Comment jsstring
  | Document "node list" "extra option"
  | DocumentType jsstring
  | OtherNode nat

text \<open>An element without a namespace, which is what \<open>createElement\<close> makes.\<close>

abbreviation Element :: "jsstring \<Rightarrow> attribute list \<Rightarrow> node list \<Rightarrow> node" where
  "Element nm as cs \<equiv> ElementNS [] nm as cs"

fun nodeType :: "node \<Rightarrow> nat" where
  "nodeType (ElementNS ns nm as cs) = 1"
| "nodeType (Attr nm v) = 2"
| "nodeType (Text d) = 3"
| "nodeType (CDATASection d) = 4"
| "nodeType (ProcessingInstruction t d) = 7"
| "nodeType (Comment d) = 8"
| "nodeType (Document cs ex) = 9"
| "nodeType (DocumentType nm) = 10"
| "nodeType (OtherNode k) = k"

abbreviation (input) ELEMENT_NODE :: nat where "ELEMENT_NODE \<equiv> 1"
abbreviation (input) ATTRIBUTE_NODE :: nat where "ATTRIBUTE_NODE \<equiv> 2"
abbreviation (input) TEXT_NODE :: nat where "TEXT_NODE \<equiv> 3"

fun childNodes :: "node \<Rightarrow> node list" where
  "childNodes (ElementNS ns nm as cs) = cs"
| "childNodes (Document cs ex) = cs"
| "childNodes n = []"

datatype error =
    MalformedDocument
  | UnexpectedResultType
  | UnexpectedNodeKind nat nat
  | NonsensicalResult
  | EmptyInput
  | MissingContainer
  | AssertionError
  | DuplicateSourceName jsstring
  | MalformedContainer jsstring
  | MissingSourceName
  | UpdateNotAllowed jsstring jsstring "jsstring option"
  | OrphanedNode
  | NotFoundError

text \<open>
  What the code takes from its surroundings: xmldom's \<open>DOMParser\<close> (\<open>None\<close> when it throws
  on text that is not well-formed), xmldom's \<open>XMLSerializer\<close>, Node's \<open>os.EOL\<close>,
  \<open>path.join\<close> and \<open>path.relative\<close> (of two arguments, as the code calls them),
  \<open>fs.existsSync\<close> and the recursive \<open>fs.rmSync\<close> on a file system that is given by the
  paths that exist in it, and the root path that the \<open>BonsaiEnvironment\<close> was made for.
\<close>

type_synonym fileSystem = "jsstring list"

record platform =
  parseFromString :: "jsstring \<Rightarrow> node list option"
  serializeToString :: "node \<Rightarrow> jsstring"
  os_EOL :: jsstring
  path_join :: "jsstring \<Rightarrow> jsstring \<Rightarrow> jsstring"
  path_relative :: "jsstring \<Rightarrow> jsstring \<Rightarrow> jsstring"
  fs_existsSync :: "fileSystem \<Rightarrow> jsstring \<Rightarrow> bool"
  fs_rmSync :: "fileSystem \<Rightarrow> jsstring \<Rightarrow> fileSystem"
  rootPath :: jsstring

section \<open>util.parseXml and util.xmlToString\<close>

definition stripBom :: "jsstring \<Rightarrow> bool \<times> jsstring" where
  "stripBom xml = (if xml \<noteq> [] \<and> hd xml = BOM then (True, tl xml) else (False, xml))"

definition parseXml :: "platform \<Rightarrow> jsstring \<Rightarrow> error + node" where
  "parseXml p xml0 =
     (let (hadBom, xml) = stripBom xml0 in
      case parseFromString p xml of
        None \<Rightarrow> Inl MalformedDocument
      | Some cs \<Rightarrow>
          Inr (Document cs (Some \<lparr>
            setupBonsaiHadBom = hadBom,
            setupBonsaiEndsWithNewLine = endsWithNewLine xml,
            setupBonsaiLineEndings = (case matchEol xml of Some eol \<Rightarrow> eol | None \<Rightarrow> os_EOL p) \<rparr>)))"

text \<open>
  The properties are read off whatever node is passed in; on a node that is not a parsed
  document they are \<open>undefined\<close>, so none of the three restorations happens.
\<close>

fun extraOf :: "node \<Rightarrow> extra option" where
  "extraOf (Document cs ex) = ex"
| "extraOf n = None"

definition xmlToString :: "platform \<Rightarrow> node \<Rightarrow> jsstring" where
  "xmlToString p xml =
     (let result = serializeToString p xml;
          result = replaceAll result (js ''/>'') (js '' />'');
          ex = extraOf xml;
          result = (if (case ex of Some e \<Rightarrow> setupBonsaiHadBom e | None \<Rightarrow> False)
                    then BOM # result else result);
          result = (if (case ex of Some e \<Rightarrow> setupBonsaiEndsWithNewLine e | None \<Rightarrow> False)
                    then result @ [LF] else result);
          result = (if (case ex of Some e \<Rightarrow> setupBonsaiLineEndings e = [CR, LF] | None \<Rightarrow> False)
                    then replaceAll result [LF] [CR, LF] else result)
      in result)"


section \<open>xpath-extra: typed single-result selectors\<close>

text \<open>
  A node of a query result is known by its position in the tree (the child indices on the
  way down from the root) together with the node found there.
\<close>

type_synonym noderef = "nat list \<times> node"

text \<open>
  What \<open>expression.evaluate\<close> hands back. A node set is given by its members in document
  order, which is the order of \<open>toArray()\<close>; \<open>first()\<close> is the head of that list. The
  value of an \<open>XNumber\<close>, a double, is never read by this code.
\<close>

datatype EvaluateResult =
    XString jsstring
  | XNumber
  | XBoolean bool
  | XNodeSet "noderef list"

definition checkedSelect1 :: "EvaluateResult \<Rightarrow> nat option \<Rightarrow> error + noderef option" where
  "checkedSelect1 result expectedType =
     (case result of
        XNodeSet ns \<Rightarrow>
          (case ns of
             [] \<Rightarrow> Inr None
           | resultNode # rest \<Rightarrow>
               (case expectedType of
                  None \<Rightarrow> Inr (Some resultNode)
                | Some t \<Rightarrow>
                    if nodeType (snd resultNode) = t then Inr (Some resultNode)
                    else if nodeType (snd resultNode) \<noteq> 0
                      then Inl (UnexpectedNodeKind t (nodeType (snd resultNode)))
                    else Inl NonsensicalResult))
      | XString s \<Rightarrow> Inl UnexpectedResultType
      | XNumber \<Rightarrow> Inl UnexpectedResultType
      | XBoolean b \<Rightarrow> Inl UnexpectedResultType)"

definition select1Node :: "EvaluateResult \<Rightarrow> error + noderef option" where
  "select1Node result = checkedSelect1 result None"

definition select1Attribute :: "EvaluateResult \<Rightarrow> error + noderef option" where
  "select1Attribute result = checkedSelect1 result (Some ATTRIBUTE_NODE)"

definition select1Element :: "EvaluateResult \<Rightarrow> error + noderef option" where
  "select1Element result = checkedSelect1 result (Some ELEMENT_NODE)"

definition select1Text :: "EvaluateResult \<Rightarrow> error + noderef option" where
  "select1Text result = checkedSelect1 result (Some TEXT_NODE)"

text \<open>
  \<open>selectElements\<close>: the whole node set, which must consist of elements only.
\<close>

definition selectElements :: "EvaluateResult \<Rightarrow> error + noderef list" where
  "selectElements result =
     (case result of
        XNodeSet nodes \<Rightarrow>
          (case find (\<lambda>n. nodeType (snd n) \<noteq> ELEMENT_NODE) nodes of
             Some badNode \<Rightarrow> Inl (UnexpectedNodeKind ELEMENT_NODE (nodeType (snd badNode)))
           | None \<Rightarrow> Inr nodes)
      | XString s \<Rightarrow> Inl UnexpectedResultType
      | XNumber \<Rightarrow> Inl UnexpectedResultType
      | XBoolean b \<Rightarrow> Inl UnexpectedResultType)"

text \<open>
  A text whose line feeds all come right after a carriage return, that is, a text whose
  line endings are uniformly the two-character form.
\<close>

fun lfOnlyAfterCr :: "jsstring \<Rightarrow> bool" where
  "lfOnlyAfterCr [] = True"
| "lfOnlyAfterCr (c # cs) =
     (if c = CR \<and> cs \<noteq> [] \<and> hd cs = LF then lfOnlyAfterCr (tl cs)
      else c \<noteq> LF \<and> lfOnlyAfterCr cs)"

section \<open>Positions in the tree and XPath location paths\<close>

text \<open>
  A position is the list of child indices on the way down from the root; the root itself
  is at \<open>[]\<close>.
\<close>

type_synonym path = "nat list"

fun nodeAt :: "node \<Rightarrow> path \<Rightarrow> node option" where
  "nodeAt n [] = Some n"
| "nodeAt n (i # p) =
     (if i < length (childNodes n) then nodeAt (childNodes n ! i) p else None)"

text \<open>All positions of a tree, in document order.\<close>

fun paths :: "node \<Rightarrow> path list"
  and pathsFrom :: "nat \<Rightarrow> node list \<Rightarrow> path list" where
  "paths (ElementNS ns nm as cs) = [] # pathsFrom 0 cs"
| "paths (Document cs ex) = [] # pathsFrom 0 cs"
| "paths (Attr nm v) = [[]]"
| "paths (Text d) = [[]]"
| "paths (CDATASection d) = [[]]"
| "paths (ProcessingInstruction t d) = [[]]"
| "paths (Comment d) = [[]]"
| "paths (DocumentType nm) = [[]]"
| "paths (OtherNode k) = [[]]"
| "pathsFrom i [] = []"
| "pathsFrom i (c # cs) = map ((#) i) (paths c) @ pathsFrom (Suc i) cs"

definition descendantOrSelf :: "node \<Rightarrow> noderef list" where
  "descendantOrSelf root = List.map_filter (\<lambda>p. map_option (Pair p) (nodeAt root p)) (paths root)"

text \<open>
  Replacing the children of the node at a position; every other node stays as it is.
\<close>

fun setChildNodes :: "node list \<Rightarrow> node \<Rightarrow> node" where
  "setChildNodes cs (ElementNS ns nm as old) = ElementNS ns nm as cs"
| "setChildNodes cs (Document old ex) = Document cs ex"
| "setChildNodes cs n = n"

fun updateAt :: "(node \<Rightarrow> node) \<Rightarrow> path \<Rightarrow> node \<Rightarrow> node"
  and updateNth :: "(node \<Rightarrow> node) \<Rightarrow> nat \<Rightarrow> path \<Rightarrow> node list \<Rightarrow> node list" where
  "updateAt f [] n = f n"
| "updateAt f (i # p) (ElementNS ns nm as cs) = ElementNS ns nm as (updateNth f i p cs)"
| "updateAt f (i # p) (Document cs ex) = Document (updateNth f i p cs) ex"
| "updateAt f (i # p) (Attr nm v) = Attr nm v"
| "updateAt f (i # p) (Text d) = Text d"
| "updateAt f (i # p) (CDATASection d) = CDATASection d"
| "updateAt f (i # p) (ProcessingInstruction t d) = ProcessingInstruction t d"
| "updateAt f (i # p) (Comment d) = Comment d"
| "updateAt f (i # p) (DocumentType nm) = DocumentType nm"
| "updateAt f (i # p) (OtherNode k) = OtherNode k"
| "updateNth f i p [] = []"
| "updateNth f 0 p (c # cs) = updateAt f p c # cs"
| "updateNth f (Suc i) p (c # cs) = c # updateNth f i p cs"

text \<open>
  The queries are evaluated by the \<open>xpath\<close> package with \<open>isHtml\<close> set, which makes its
  name tests compare local names without regard to letter case, by \<open>toLowerCase\<close>. The
  names that the queries test are ASCII, so \<open>toLowerCase\<close> is given here as far as a
  comparison with a lower-case ASCII name can tell: for the letters A to Z and for the
  Kelvin sign, the one other character whose lower case is an ASCII letter.
  \<open>toUpperCase\<close> is given for the letters a to z.
\<close>

definition toLowerCase :: "jsstring \<Rightarrow> jsstring" where
  "toLowerCase s =
     map (\<lambda>c. if 65 \<le> c \<and> c \<le> 90 then c + 32 else if c = 0x212A then 107 else c) s"

definition toUpperCase :: "jsstring \<Rightarrow> jsstring" where
  "toUpperCase s = map (\<lambda>c. if 97 \<le> c \<and> c \<le> 122 then c - 32 else c) s"

text \<open>
  The \<open>localName\<close> that the parser gives to a qualified name: what follows the first colon
  when that colon is not the first character, the whole name otherwise. \<open>hasPrefix\<close> of
  the package asks for a colon anywhere in the name.
\<close>

definition localName :: "jsstring \<Rightarrow> jsstring" where
  "localName nm =
     (if 58 \<in> set nm \<and> hd nm \<noteq> 58 then tl (dropWhile (\<lambda>c. c \<noteq> 58) nm) else nm)"

definition hasPrefix :: "jsstring \<Rightarrow> bool" where
  "hasPrefix nm = (58 \<in> set nm)"

fun namespaceURI :: "node \<Rightarrow> jsstring" where
  "namespaceURI (ElementNS ns nm as cs) = ns"
| "namespaceURI n = []"

fun nodeName :: "node \<Rightarrow> jsstring" where
  "nodeName (ElementNS ns nm as cs) = nm"
| "nodeName (Attr nm v) = nm"
| "nodeName (Text d) = js ''#text''"
| "nodeName (CDATASection d) = js ''#cdata-section''"
| "nodeName (ProcessingInstruction t d) = t"
| "nodeName (Comment d) = js ''#comment''"
| "nodeName (Document cs ex) = js ''#document''"
| "nodeName (DocumentType nm) = nm"
| "nodeName (OtherNode k) = []"

fun nodeValue :: "node \<Rightarrow> jsstring option" where
  "nodeValue (Attr nm v) = Some v"
| "nodeValue (Text d) = Some d"
| "nodeValue (CDATASection d) = Some d"
| "nodeValue (ProcessingInstruction t d) = Some d"
| "nodeValue (Comment d) = Some d"
| "nodeValue n = None"

fun attributes :: "node \<Rightarrow> attribute list" where
  "attributes (ElementNS ns nm as cs) = as"
| "attributes n = []"

text \<open>
  The name test of an unprefixed name, as the package does it with
  \<open>allowAnyNamespaceForNoPrefix\<close> and \<open>isHtml\<close>. The namespace is accepted when the node has
  none or when its name has no prefix; the local name, or the whole name when the local
  name is empty, is compared without regard to letter case.
\<close>

definition nameMatches :: "string \<Rightarrow> jsstring \<Rightarrow> jsstring \<Rightarrow> bool" where
  "nameMatches lit ns nm =
     ((ns = [] \<or> \<not> hasPrefix nm)
      \<and> toLowerCase (if localName nm = [] then nm else localName nm) = toLowerCase (js lit))"

text \<open>The name test of a child step: an element whose name matches.\<close>

definition nameTest :: "string \<Rightarrow> node \<Rightarrow> bool" where
  "nameTest lit n = (nodeType n = ELEMENT_NODE \<and> nameMatches lit (namespaceURI n) (nodeName n))"

text \<open>The node test \<open>text()\<close>, which the package lets match CDATA sections as well.\<close>

definition textTest :: "node \<Rightarrow> bool" where
  "textTest n = (nodeType n = TEXT_NODE \<or> nodeType n = 4)"

text \<open>
  \<open>//a/b/c\<close> selects the elements named \<open>c\<close> whose parent is an element named \<open>b\<close> whose
  parent is an element named \<open>a\<close> that is itself a child of some node. \<open>elementChain\<close>
  takes the names innermost first and checks them upwards from a position.
\<close>

fun elementChain :: "node \<Rightarrow> string list \<Rightarrow> path \<Rightarrow> bool" where
  "elementChain root [] p = True"
| "elementChain root (nm # nms) p =
     (p \<noteq> []
      \<and> (case nodeAt root p of Some n \<Rightarrow> nameTest nm n | None \<Rightarrow> False)
      \<and> elementChain root nms (butlast p))"

definition selectChain :: "string list \<Rightarrow> node \<Rightarrow> noderef list" where
  "selectChain nms root = filter (\<lambda>r. elementChain root nms (fst r)) (descendantOrSelf root)"

text \<open>
  The attribute step \<open>@name\<close> from a context node: its attributes whose name matches, in
  their order. The position of the context node plays no part in the answer.
\<close>

definition attributeAxis :: "string \<Rightarrow> noderef \<Rightarrow> noderef list" where
  "attributeAxis lit ctx =
     map (\<lambda>(i, (ns, k, v)). (fst ctx @ [i], Attr k v))
       (filter (\<lambda>(i, (ns, k, v)). nameMatches lit ns k)
          (enumerate 0 (attributes (snd ctx))))"

text \<open>\<open>xpath.select1Attribute('@name', node)?.nodeValue\<close>\<close>

definition attributeValue :: "string \<Rightarrow> node \<Rightarrow> error + jsstring option" where
  "attributeValue lit node =
     (case select1Attribute (XNodeSet (attributeAxis lit ([], node))) of
        Inl e \<Rightarrow> Inl e
      | Inr None \<Rightarrow> Inr None
      | Inr (Some a) \<Rightarrow> Inr (nodeValue (snd a)))"

text \<open>\<open>cloneNode()\<close> without an argument is the shallow copy: an element loses its children.\<close>

fun cloneNode :: "node \<Rightarrow> node" where
  "cloneNode (ElementNS ns nm as cs) = ElementNS ns nm as []"
| "cloneNode (Document cs ex) = Document [] None"
| "cloneNode n = n"

section \<open>BonsaiEnvironment.addPackageSources\<close>

record NuGetPackageSource =
  name :: jsstring
  url :: jsstring
  allowUpdate :: bool

text \<open>\<open>//configuration/packageSources\<close>\<close>

definition packageSourcesSelector :: "node \<Rightarrow> EvaluateResult" where
  "packageSourcesSelector root = XNodeSet (selectChain [''packageSources'', ''configuration''] root)"

text \<open>\<open>//configuration/packageSources/text()\<close>\<close>

definition packageSourcesIndentSelector :: "node \<Rightarrow> EvaluateResult" where
  "packageSourcesIndentSelector root =
     XNodeSet (filter (\<lambda>r. textTest (snd r) \<and> fst r \<noteq> []
                 \<and> elementChain root [''packageSources'', ''configuration''] (butlast (fst r)))
       (descendantOrSelf root))"

text \<open>
  \<open>//configuration/packageSources/clear[last()]\<close>: of the \<open>clear\<close> children of each
  container, the last one.
\<close>

definition lastClearSourceSelector :: "node \<Rightarrow> EvaluateResult" where
  "lastClearSourceSelector root =
     XNodeSet (filter (\<lambda>r. elementChain root [''clear'', ''packageSources'', ''configuration''] (fst r)
                 \<and> (case nodeAt root (butlast (fst r)) of
                       Some par \<Rightarrow> list_all (\<lambda>n. \<not> nameTest ''clear'' n)
                                    (drop (Suc (last (fst r))) (childNodes par))
                     | None \<Rightarrow> False))
       (descendantOrSelf root))"

text \<open>
  The anchors of a merge: the container, the indentation to copy and the insertion point.
  The insertion point is given as an index into the container's children; the index one
  past the last child is the source's \<open>null\<close>, "insert at the end". The two assertions of
  the source hold exactly when the last \<open>clear\<close> that the query found is a child of the
  container.
\<close>

record anchors =
  packageSourcesNode :: noderef
  referenceIndentation :: node
  insertionPoint :: nat

definition locateAnchors :: "node \<Rightarrow> error + anchors" where
  "locateAnchors nugetConfig =
     (case select1Element (packageSourcesSelector nugetConfig) of
        Inl e \<Rightarrow> Inl e
      | Inr None \<Rightarrow> Inl MissingContainer
      | Inr (Some container) \<Rightarrow>
     (case select1Text (packageSourcesIndentSelector nugetConfig) of
        Inl e \<Rightarrow> Inl e
      | Inr indent \<Rightarrow>
     (case select1Element (lastClearSourceSelector nugetConfig) of
        Inl e \<Rightarrow> Inl e
      | Inr None \<Rightarrow>
          Inr \<lparr> packageSourcesNode = container,
                referenceIndentation = (case indent of Some t \<Rightarrow> snd t | None \<Rightarrow> Text (js ''\<newline>    '')),
                insertionPoint = 0 \<rparr>
      | Inr (Some lastClear) \<Rightarrow>
          if butlast (fst lastClear) = fst container
          then Inr \<lparr> packageSourcesNode = container,
                     referenceIndentation = (case indent of Some t \<Rightarrow> snd t | None \<Rightarrow> Text (js ''\<newline>    '')),
                     insertionPoint = Suc (last (fst lastClear)) \<rparr>
          else Inl AssertionError)))"

text \<open>
  The loop that adds the sources. Its state is the map of the sources seen so far, the
  children of the container and the insertion point. A repeated name throws out of the
  loop and leaves the state as the earlier iterations made it.
\<close>

definition newSourceElement :: "NuGetPackageSource \<Rightarrow> node" where
  "newSourceElement source =
     Element (js ''add'') [([], js ''key'', name source), ([], js ''value'', url source)] []"

type_synonym mergeState = "(jsstring \<rightharpoonup> NuGetPackageSource) \<times> node list \<times> nat"

fun addSources :: "node \<Rightarrow> NuGetPackageSource list \<Rightarrow> mergeState \<Rightarrow> error option \<times> mergeState" where
  "addSources indent [] st = (None, st)"
| "addSources indent (source # rest) (newSources, children, ip) =
     (if newSources (name source) \<noteq> None
      then (Some (DuplicateSourceName (name source)), (newSources, children, ip))
      else addSources indent rest
             (newSources(name source \<mapsto> source),
              take ip children @ [cloneNode indent, newSourceElement source] @ drop ip children,
              ip + 2))"

text \<open>
  The loop that disables the sources replaced by an added one. It walks the siblings from
  the insertion point on and returns them as it leaves them, with the error if it threw.
\<close>

fun disableReplaced ::
  "platform \<Rightarrow> (jsstring \<rightharpoonup> NuGetPackageSource) \<Rightarrow> node list \<Rightarrow> error option \<times> node list" where
  "disableReplaced p newSources [] = (None, [])"
| "disableReplaced p newSources (node # rest) =
     (if nodeType node \<noteq> ELEMENT_NODE
      then (case disableReplaced p newSources rest of (e, rest') \<Rightarrow> (e, node # rest'))
      else if nodeName node \<noteq> js ''add''
      then (Some (MalformedContainer (nodeName node)), node # rest)
      else (case attributeValue ''key'' node of
              Inl e \<Rightarrow> (Some e, node # rest)
            | Inr None \<Rightarrow> (Some MissingSourceName, node # rest)
            | Inr (Some nm) \<Rightarrow>
                if nm = [] then (Some MissingSourceName, node # rest)
                else (case newSources nm of
                        None \<Rightarrow>
                          (case disableReplaced p newSources rest of (e, rest') \<Rightarrow> (e, node # rest'))
                      | Some newSource \<Rightarrow>
                          (case attributeValue ''value'' node of
                             Inl e \<Rightarrow> (Some e, node # rest)
                           | Inr url' \<Rightarrow>
                               if \<not> allowUpdate newSource
                               then (Some (UpdateNotAllowed (name newSource) (url newSource) url'),
                                     node # rest)
                               else (case disableReplaced p newSources rest of
                                       (e, rest') \<Rightarrow>
                                         (e, Comment (js '' '' @ xmlToString p node @ js '' '') # rest'))))))"

text \<open>
  The in-memory part of \<open>addPackageSources\<close>, from the parsed document to the end of the
  second loop: the outcome and the document as the call leaves it.
\<close>

definition mergeIntoDocument ::
  "platform \<Rightarrow> NuGetPackageSource list \<Rightarrow> node \<Rightarrow> (error + unit) \<times> node" where
  "mergeIntoDocument p sources nugetConfig =
     (case locateAnchors nugetConfig of
        Inl e \<Rightarrow> (Inl e, nugetConfig)
      | Inr a \<Rightarrow>
          (case addSources (referenceIndentation a) sources
                  (Map.empty, childNodes (snd (packageSourcesNode a)), insertionPoint a) of
             (Some e, (newSources, children, ip)) \<Rightarrow>
               (Inl e, updateAt (setChildNodes children) (fst (packageSourcesNode a)) nugetConfig)
           | (None, (newSources, children, ip)) \<Rightarrow>
               (case disableReplaced p newSources (drop ip children) of
                  (e, rest) \<Rightarrow>
                    ((case e of Some err \<Rightarrow> Inl err | None \<Rightarrow> Inr ()),
                     updateAt (setChildNodes (take ip children @ rest))
                       (fst (packageSourcesNode a)) nugetConfig))))"

text \<open>
  \<open>addPackageSources\<close> on the content of \<open>NuGet.config\<close>: the outcome and the content of the
  file after the call. The file is written once, after both loops.
\<close>

definition addPackageSources ::
  "platform \<Rightarrow> NuGetPackageSource list \<Rightarrow> jsstring \<Rightarrow> (error + unit) \<times> jsstring" where
  "addPackageSources p sources nugetConfigContent =
     (if length sources < 1 then (Inl EmptyInput, nugetConfigContent)
      else (case parseXml p nugetConfigContent of
              Inl e \<Rightarrow> (Inl e, nugetConfigContent)
            | Inr nugetConfig \<Rightarrow>
                (case mergeIntoDocument p sources nugetConfig of
                   (Inl e, doc) \<Rightarrow> (Inl e, nugetConfigContent)
                 | (Inr u, doc) \<Rightarrow> (Inr (), xmlToString p doc))))"

text \<open>
  Notions used to state what the two loops do: the nodes the first loop puts in, the
  source (if any) that replaces an existing entry, the entries the second loop gets past
  without throwing, and what it turns an entry into.
\<close>

definition insertedNodes :: "node \<Rightarrow> NuGetPackageSource list \<Rightarrow> node list" where
  "insertedNodes indent sources =
     concat (map (\<lambda>s. [cloneNode indent, newSourceElement s]) sources)"

definition replacedBy :: "(jsstring \<rightharpoonup> NuGetPackageSource) \<Rightarrow> node \<Rightarrow> NuGetPackageSource option" where
  "replacedBy newSources n =
     (if nodeType n = ELEMENT_NODE \<and> nodeName n = js ''add''
      then (case attributeValue ''key'' n of
              Inr (Some nm) \<Rightarrow> if nm = [] then None else newSources nm
            | _ \<Rightarrow> None)
      else None)"

definition passable :: "(jsstring \<rightharpoonup> NuGetPackageSource) \<Rightarrow> node \<Rightarrow> bool" where
  "passable newSources n =
     (nodeType n \<noteq> ELEMENT_NODE
      \<or> (nodeName n = js ''add''
          \<and> (case attributeValue ''key'' n of
                Inr (Some nm) \<Rightarrow>
                  nm \<noteq> [] \<and> (case newSources nm of None \<Rightarrow> True | Some s \<Rightarrow> allowUpdate s)
              | _ \<Rightarrow> False)))"

definition disable :: "platform \<Rightarrow> (jsstring \<rightharpoonup> NuGetPackageSource) \<Rightarrow> node \<Rightarrow> node" where
  "disable p newSources n =
     (case replacedBy newSources n of
        Some s \<Rightarrow> Comment (js '' '' @ xmlToString p n @ js '' '')
      | None \<Rightarrow> n)"

section \<open>xpath-extra.smartRemove and references held across removals\<close>

text \<open>
  \<open>smartRemove\<close> takes the node at a position out of its parent, together with the text
  node right before it when there is one. It returns the new tree and what was removed:
  the position of the parent, the index of the first child removed and the number of
  children removed. A node without a parent is the root, at \<open>[]\<close>. (A position that does
  not exist in the tree cannot come out of a query on that tree; it is answered like the
  root.)
\<close>

type_synonym removal = "path \<times> nat \<times> nat"

definition smartRemove :: "path \<Rightarrow> node \<Rightarrow> error + node \<times> removal" where
  "smartRemove p doc =
     (if p = [] then Inl OrphanedNode
      else (case nodeAt doc (butlast p) of
              None \<Rightarrow> Inl OrphanedNode
            | Some parent \<Rightarrow>
                if length (childNodes parent) \<le> last p then Inl OrphanedNode
                else (let cs = childNodes parent;
                          i = last p;
                          textSibling = (0 < i \<and> nodeType (cs ! (i - 1)) = TEXT_NODE);
                          lo = (if textSibling then i - 1 else i)
                      in Inr (updateAt (setChildNodes (take lo cs @ drop (Suc i) cs)) (butlast p) doc,
                              (butlast p, lo, Suc i - lo)))))"

text \<open>
  The source keeps references to nodes while it removes others. Here a reference is a
  position, and a removal moves the positions behind it: a later sibling of the removed
  children, and everything below such a sibling, moves to the left; what was below a
  removed child is no longer in the document (\<open>None\<close>).
\<close>

definition adjust :: "removal \<Rightarrow> path \<Rightarrow> path option" where
  "adjust rm p =
     (case rm of (q, lo, r) \<Rightarrow>
        if prefix q p \<and> length q < length p
        then (let j = p ! length q in
              if j < lo then Some p
              else if j < lo + r then None
              else Some (q @ (j - r) # drop (Suc (length q)) p))
        else Some p)"

text \<open>
  A held reference: where the node is now, if it still is in the document, and the node
  as it was found (its attributes are read later; they never change).
\<close>

type_synonym heldref = "path option \<times> node"

definition adjustAll :: "removal \<Rightarrow> heldref list \<Rightarrow> heldref list" where
  "adjustAll rm held = map (\<lambda>(po, n). (Option.bind po (adjust rm), n)) held"

text \<open>
  \<open>smartRemove\<close> of a held reference, with the other held references moved along. A node
  that went out of the document inside a removed subtree still has its parent there, so
  its removal succeeds and changes nothing in the document.
\<close>

definition smartRemoveHeld :: "heldref \<Rightarrow> node \<times> heldref list \<Rightarrow> error + node \<times> heldref list" where
  "smartRemoveHeld r st =
     (case st of (doc, held) \<Rightarrow>
        (case fst r of
           None \<Rightarrow> Inr (doc, held)
         | Some p \<Rightarrow>
             (case smartRemove p doc of
                Inl e \<Rightarrow> Inl e
              | Inr (doc', rm) \<Rightarrow> Inr (doc', adjustAll rm held))))"

definition hold :: "noderef \<Rightarrow> heldref" where
  "hold r = (Some (fst r), snd r)"

text \<open>
  A loop \<open>for (const x of xs) smartRemove(x)\<close>: the nodes to remove are the first \<open>k\<close> held
  references, in their order.
\<close>

fun removeEach :: "nat \<Rightarrow> node \<times> heldref list \<Rightarrow> error + node \<times> heldref list" where
  "removeEach 0 st = Inr st"
| "removeEach (Suc k) (doc, []) = Inr (doc, [])"
| "removeEach (Suc k) (doc, r # held) =
     (case smartRemoveHeld r (doc, held) of
        Inl e \<Rightarrow> Inl e
      | Inr st' \<Rightarrow> removeEach k st')"

section \<open>BonsaiEnvironment.injectPackages\<close>

record LocalNuGetPackage =
  id' :: jsstring
  version :: jsstring

text \<open>
  The predicates of the location paths. \<open>@name = $v\<close> holds when some attribute of that
  name has exactly the value \<open>v\<close>: the comparison of the values is that of strings, letter
  case included. \<open>translate(@name, "\", "/")\<close> takes the value of the first attribute of
  that name, or the empty string, and turns every backslash into a slash.
\<close>

definition attributeEquals :: "string \<Rightarrow> jsstring \<Rightarrow> node \<Rightarrow> bool" where
  "attributeEquals lit v n =
     list_ex (\<lambda>(ns, k, v'). nameMatches lit ns k \<and> v' = v) (attributes n)"

definition attributeString :: "string \<Rightarrow> node \<Rightarrow> jsstring" where
  "attributeString lit n =
     (case find (\<lambda>(ns, k, v). nameMatches lit ns k) (attributes n) of
        Some (ns, k, v) \<Rightarrow> v
      | None \<Rightarrow> [])"

definition translateSeparators :: "jsstring \<Rightarrow> jsstring" where
  "translateSeparators s = map (\<lambda>c. if c = 92 then 47 else c) s"

text \<open>\<open>//PackageConfiguration/Packages\<close>\<close>

definition bonsaiConfigPackagesSelector :: "node \<Rightarrow> EvaluateResult" where
  "bonsaiConfigPackagesSelector root =
     XNodeSet (selectChain [''Packages'', ''PackageConfiguration''] root)"

text \<open>\<open>//PackageConfiguration/Packages/text()\<close>\<close>

definition bonsaiConfigPackagesIndentSelector :: "node \<Rightarrow> EvaluateResult" where
  "bonsaiConfigPackagesIndentSelector root =
     XNodeSet (filter (\<lambda>r. textTest (snd r) \<and> fst r \<noteq> []
                 \<and> elementChain root [''Packages'', ''PackageConfiguration''] (butlast (fst r)))
       (descendantOrSelf root))"

text \<open>\<open>//PackageConfiguration/Packages/Package[@id=$packageId]\<close>\<close>

definition packageSelector :: "jsstring \<Rightarrow> node \<Rightarrow> EvaluateResult" where
  "packageSelector packageId root =
     XNodeSet (filter (\<lambda>r. attributeEquals ''id'' packageId (snd r))
       (selectChain [''Package'', ''Packages'', ''PackageConfiguration''] root))"

text \<open>
  \<open>//PackageConfiguration/AssemblyLocations/AssemblyLocation[starts-with(translate(@location, "\", "/"), $packageLocation)]\<close>
\<close>

definition assemblyLocationsByPackageLocationSelector :: "jsstring \<Rightarrow> node \<Rightarrow> EvaluateResult" where
  "assemblyLocationsByPackageLocationSelector packageLocation root =
     XNodeSet (filter (\<lambda>r. prefix packageLocation (translateSeparators (attributeString ''location'' (snd r))))
       (selectChain [''AssemblyLocation'', ''AssemblyLocations'', ''PackageConfiguration''] root))"

text \<open>
  \<open>//PackageConfiguration/LibraryFolders/LibraryFolder[starts-with(translate(@path, "\", "/"), $packageLocation)]\<close>
\<close>

definition libraryFolderByPackageLocationSelector :: "jsstring \<Rightarrow> node \<Rightarrow> EvaluateResult" where
  "libraryFolderByPackageLocationSelector packageLocation root =
     XNodeSet (filter (\<lambda>r. prefix packageLocation (translateSeparators (attributeString ''path'' (snd r))))
       (selectChain [''LibraryFolder'', ''LibraryFolders'', ''PackageConfiguration''] root))"

text \<open>\<open>//PackageConfiguration/AssemblyReferences/AssemblyReference[@assemblyName=$assemblyName]\<close>\<close>

definition assemblyReferencesByNameSelector :: "jsstring \<Rightarrow> node \<Rightarrow> EvaluateResult" where
  "assemblyReferencesByNameSelector assemblyName root =
     XNodeSet (filter (\<lambda>r. attributeEquals ''assemblyName'' assemblyName (snd r))
       (selectChain [''AssemblyReference'', ''AssemblyReferences'', ''PackageConfiguration''] root))"

text \<open>
  \<open>this.packagesPath\<close>, set by the constructor, and the two paths that a turn of the loop
  computes for the entry it replaces: the directory of the replaced package, and that
  directory relative to the root of the environment, with every backslash turned into a
  slash and a final slash.
\<close>

definition packagesPath :: "platform \<Rightarrow> jsstring" where
  "packagesPath p = path_join p (rootPath p) (js ''Packages'')"

definition replacePackagePath :: "platform \<Rightarrow> jsstring \<Rightarrow> jsstring \<Rightarrow> jsstring" where
  "replacePackagePath p replaceId replaceVersion =
     path_join p (packagesPath p) (replaceId @ js ''.'' @ replaceVersion)"

definition replacePackagePathLocal :: "platform \<Rightarrow> jsstring \<Rightarrow> jsstring \<Rightarrow> jsstring" where
  "replacePackagePathLocal p replaceId replaceVersion =
     replaceAll (path_relative p (rootPath p) (replacePackagePath p replaceId replaceVersion))
       [92] [47] @ js ''/''"

text \<open>
  The loop over the \<open>AssemblyLocation\<close> nodes found for a replaced package: each is
  removed, and with it every \<open>AssemblyReference\<close> of the same assembly name, looked up in
  the tree as it is then. The nodes still to go are the first \<open>k\<close> held references.
\<close>

fun removeLocations :: "nat \<Rightarrow> node \<times> heldref list \<Rightarrow> error + node \<times> heldref list" where
  "removeLocations 0 st = Inr st"
| "removeLocations (Suc k) (doc, []) = Inr (doc, [])"
| "removeLocations (Suc k) (doc, relatedAssemblyLocation # held) =
     (case attributeValue ''assemblyName'' (snd relatedAssemblyLocation) of
        Inl e \<Rightarrow> Inl e
      | Inr assemblyName \<Rightarrow>
     (case smartRemoveHeld relatedAssemblyLocation (doc, held) of
        Inl e \<Rightarrow> Inl e
      | Inr (doc1, held1) \<Rightarrow>
          (case assemblyName of
             None \<Rightarrow> removeLocations k (doc1, held1)
           | Some nm \<Rightarrow>
               if nm = [] then removeLocations k (doc1, held1)
               else (case selectElements (assemblyReferencesByNameSelector nm doc1) of
                       Inl e \<Rightarrow> Inl e
                     | Inr assemblyReferences \<Rightarrow>
                         (case removeEach (length assemblyReferences)
                                 (doc1, map hold assemblyReferences @ held1) of
                            Inl e \<Rightarrow> Inl e
                          | Inr st2 \<Rightarrow> removeLocations k st2)))))"

text \<open>
  What the call does outside the document: it removes the directory of a replaced
  package, or warns that it is not there. The state of the loop has the document, the
  container, the file system and what was done to it so far.
\<close>

datatype fsEffect = RemoveDirectory jsstring | WarnMissing jsstring

record injectState =
  bonsaiConfig :: node
  packagesNode :: heldref
  directories :: fileSystem
  effects :: "fsEffect list"

definition newPackageElement :: "LocalNuGetPackage \<Rightarrow> node" where
  "newPackageElement nugetPackage =
     Element (js ''Package'')
       [([], js ''id'', id' nugetPackage), ([], js ''version'', version nugetPackage)] []"

text \<open>
  \<open>packagesNode.replaceChild(injectedNode, replaceNode)\<close>, which throws when the node to
  replace is not a child of the container.
\<close>

definition replaceChild :: "node \<Rightarrow> noderef \<Rightarrow> heldref \<Rightarrow> node \<Rightarrow> error + node" where
  "replaceChild injectedNode replaceNode container doc =
     (if fst replaceNode \<noteq> [] \<and> fst container = Some (butlast (fst replaceNode))
      then Inr (updateAt (\<lambda>old. injectedNode) (fst replaceNode) doc)
      else Inl NotFoundError)"

text \<open>
  The two \<open>insertBefore\<close> calls for a package that is new. The insertion point was taken
  before the loop: the last child of the container when that is a text node, the end of
  the container otherwise. Children of the container are only ever added before that
  text node or replaced in place, so it stays the last child; \<open>beforeLast\<close> says which of
  the two cases holds. A container that is no longer in the document takes the new nodes
  with it, and the document stays as it is.
\<close>

definition insertPackage :: "node \<Rightarrow> node \<Rightarrow> bool \<Rightarrow> heldref \<Rightarrow> node \<Rightarrow> node" where
  "insertPackage injectedNode indent beforeLast container doc =
     (case fst container of
        None \<Rightarrow> doc
      | Some pp \<Rightarrow>
          updateAt (\<lambda>n. setChildNodes
              (let cs = childNodes n; ip = (if beforeLast then length cs - 1 else length cs)
               in take ip cs @ [cloneNode indent, injectedNode] @ drop ip cs) n) pp doc)"

text \<open>
  One turn of the loop over the packages: the outcome and the state it leaves. When the
  turn throws, the state is the one at the throw: a directory removed earlier in the turn
  is gone and the request for it is on record. (An exception from inside the removal
  loops is reported with the document as it was when those loops began.)
\<close>

definition injectPackage ::
  "platform \<Rightarrow> node \<Rightarrow> bool \<Rightarrow> LocalNuGetPackage \<Rightarrow> injectState
     \<Rightarrow> (error + unit) \<times> injectState" where
  "injectPackage p indent beforeLast nugetPackage st =
     (let injectedNode = newPackageElement nugetPackage in
      case select1Element (packageSelector (id' nugetPackage) (bonsaiConfig st)) of
        Inl e \<Rightarrow> (Inl e, st)
      | Inr None \<Rightarrow>
          (Inr (), st\<lparr> bonsaiConfig :=
                 insertPackage injectedNode indent beforeLast (packagesNode st) (bonsaiConfig st) \<rparr>)
      | Inr (Some replaceNode) \<Rightarrow>
     (case attributeValue ''id'' (snd replaceNode) of
        Inl e \<Rightarrow> (Inl e, st)
      | Inr None \<Rightarrow> (Inl AssertionError, st)
      | Inr (Some replaceId) \<Rightarrow>
     (case attributeValue ''version'' (snd replaceNode) of
        Inl e \<Rightarrow> (Inl e, st)
      | Inr None \<Rightarrow> (Inl AssertionError, st)
      | Inr (Some replaceVersion) \<Rightarrow>
          if replaceId = [] \<or> replaceVersion = [] then (Inl AssertionError, st)
          else if toUpperCase (id' nugetPackage) \<noteq> toUpperCase replaceId then (Inl AssertionError, st)
          else
     (let packagePath = replacePackagePath p replaceId replaceVersion;
          packageLocation = replacePackagePathLocal p replaceId replaceVersion;
          st1 = (if fs_existsSync p (directories st) packagePath
                 then st\<lparr> directories := fs_rmSync p (directories st) packagePath,
                          effects := effects st @ [RemoveDirectory packagePath] \<rparr>
                 else st\<lparr> effects := effects st @ [WarnMissing packagePath] \<rparr>)
      in
      case replaceChild injectedNode replaceNode (packagesNode st1) (bonsaiConfig st1) of
        Inl e \<Rightarrow> (Inl e, st1)
      | Inr doc1 \<Rightarrow>
     (case selectElements (assemblyLocationsByPackageLocationSelector packageLocation doc1) of
        Inl e \<Rightarrow> (Inl e, st1\<lparr> bonsaiConfig := doc1 \<rparr>)
      | Inr relatedAssemblyLocations \<Rightarrow>
     (case removeLocations (length relatedAssemblyLocations)
             (doc1, map hold relatedAssemblyLocations @ [packagesNode st1]) of
        Inl e \<Rightarrow> (Inl e, st1\<lparr> bonsaiConfig := doc1 \<rparr>)
      | Inr (doc2, held2) \<Rightarrow>
     (case selectElements (libraryFolderByPackageLocationSelector packageLocation doc2) of
        Inl e \<Rightarrow> (Inl e, st1\<lparr> bonsaiConfig := doc1 \<rparr>)
      | Inr relatedLibraryFolders \<Rightarrow>
     (case removeEach (length relatedLibraryFolders)
             (doc2, map hold relatedLibraryFolders @ held2) of
        Inl e \<Rightarrow> (Inl e, st1\<lparr> bonsaiConfig := doc1 \<rparr>)
      | Inr (doc3, held3) \<Rightarrow>
          (Inr (), st1\<lparr> bonsaiConfig := doc3,
                   packagesNode := (case held3 of h # hs \<Rightarrow> h | [] \<Rightarrow> packagesNode st1) \<rparr>)))))))))"

text \<open>The loop over the packages; it stops at the first turn that throws.\<close>

fun injectEach ::
  "platform \<Rightarrow> node \<Rightarrow> bool \<Rightarrow> LocalNuGetPackage list \<Rightarrow> injectState
     \<Rightarrow> (error + unit) \<times> injectState" where
  "injectEach p indent beforeLast [] st = (Inr (), st)"
| "injectEach p indent beforeLast (nugetPackage # rest) st =
     (case injectPackage p indent beforeLast nugetPackage st of
        (Inl e, st') \<Rightarrow> (Inl e, st')
      | (Inr u, st') \<Rightarrow> injectEach p indent beforeLast rest st')"

text \<open>
  The in-memory part of \<open>injectPackages\<close>: the anchors, then the loop.
\<close>

definition injectIntoDocument ::
  "platform \<Rightarrow> LocalNuGetPackage list \<Rightarrow> jsstring list \<Rightarrow> node \<Rightarrow> (error + unit) \<times> injectState" where
  "injectIntoDocument p nugetPackages dirs bonsaiConfig0 =
     (let st0 = \<lparr> bonsaiConfig = bonsaiConfig0, packagesNode = (None, bonsaiConfig0),
                  directories = dirs, effects = [] \<rparr> in
      case select1Element (bonsaiConfigPackagesSelector bonsaiConfig0) of
        Inl e \<Rightarrow> (Inl e, st0)
      | Inr None \<Rightarrow> (Inl MissingContainer, st0)
      | Inr (Some container) \<Rightarrow>
     (case select1Text (bonsaiConfigPackagesIndentSelector bonsaiConfig0) of
        Inl e \<Rightarrow> (Inl e, st0)
      | Inr indent \<Rightarrow>
          injectEach p
            (case indent of Some t \<Rightarrow> snd t | None \<Rightarrow> Text (js ''\<newline>    ''))
            (childNodes (snd container) \<noteq> []
               \<and> nodeType (last (childNodes (snd container))) = TEXT_NODE)
            nugetPackages
            (st0\<lparr> packagesNode := hold container \<rparr>)))"

text \<open>
  \<open>injectPackages\<close> on the content of \<open>Bonsai.config\<close> and the package directories on disk:
  the outcome, the content of the file after the call, the directories after the call
  and what was asked of the file system. The file is written once, after the loop;
  directories removed before a failure stay removed.
\<close>

definition injectPackages ::
  "platform \<Rightarrow> LocalNuGetPackage list \<Rightarrow> jsstring list \<Rightarrow> jsstring
     \<Rightarrow> (error + unit) \<times> jsstring \<times> jsstring list \<times> fsEffect list" where
  "injectPackages p nugetPackages dirs bonsaiConfigContent =
     (case parseXml p bonsaiConfigContent of
        Inl e \<Rightarrow> (Inl e, bonsaiConfigContent, dirs, [])
      | Inr bonsaiConfig0 \<Rightarrow>
          (case injectIntoDocument p nugetPackages dirs bonsaiConfig0 of
             (Inl e, st) \<Rightarrow> (Inl e, bonsaiConfigContent, directories st, effects st)
           | (Inr u, st) \<Rightarrow>
               (Inr (), xmlToString p (bonsaiConfig st), directories st, effects st)))"

section \<open>What a replaced package takes with it\<close>

text \<open>
  The records of the manifest that the cascade looks at, each named by the chain of
  element names of its location path, innermost first.
\<close>

definition recordChains :: "string list list" where
  "recordChains =
     [[''AssemblyLocation'', ''AssemblyLocations'', ''PackageConfiguration''],
      [''AssemblyReference'', ''AssemblyReferences'', ''PackageConfiguration''],
      [''LibraryFolder'', ''LibraryFolders'', ''PackageConfiguration'']]"

definition nodeSet :: "EvaluateResult \<Rightarrow> noderef list" where
  "nodeSet result = (case result of XNodeSet nodes \<Rightarrow> nodes | _ \<Rightarrow> [])"

text \<open>
  The assembly names that go with a package location: the non-empty \<open>assemblyName\<close> of
  every \<open>AssemblyLocation\<close> whose location starts with it.
\<close>

definition relatedAssemblyNames :: "jsstring \<Rightarrow> node \<Rightarrow> jsstring list" where
  "relatedAssemblyNames packageLocation doc =
     concat (map
       (\<lambda>r. case attributeValue ''assemblyName'' (snd r) of
               Inr (Some nm) \<Rightarrow> if nm = [] then [] else [nm]
             | _ \<Rightarrow> [])
       (nodeSet (assemblyLocationsByPackageLocationSelector packageLocation doc)))"

text \<open>
  A record is related to a package location when it is an assembly location or a library
  folder under that location, or an assembly reference with one of the assembly names
  found under that location.
\<close>

definition related :: "jsstring \<Rightarrow> node \<Rightarrow> node \<Rightarrow> bool" where
  "related packageLocation doc n =
     ((nameTest ''AssemblyLocation'' n
         \<and> prefix packageLocation (translateSeparators (attributeString ''location'' n)))
    \<or> (nameTest ''LibraryFolder'' n
         \<and> prefix packageLocation (translateSeparators (attributeString ''path'' n)))
    \<or> (nameTest ''AssemblyReference'' n
         \<and> list_ex (\<lambda>nm. attributeEquals ''assemblyName'' nm n)
               (relatedAssemblyNames packageLocation doc)))"

text \<open>Every node selected by one of the chains is an element without children.\<close>

definition leaves :: "string list list \<Rightarrow> node \<Rightarrow> bool" where
  "leaves C doc = list_all (\<lambda>c. list_all (\<lambda>r. childNodes (snd r) = []) (selectChain c doc)) C"

text \<open>
  From \<open>doc\<close> to \<open>doc'\<close>, for each chain: every selected node that is not \<open>D\<close> is still
  selected, as it was, and no selected node is new.
\<close>

definition keeps :: "string list list \<Rightarrow> (node \<Rightarrow> bool) \<Rightarrow> node \<Rightarrow> node \<Rightarrow> bool" where
  "keeps C D doc doc' = (\<forall>c\<in>set C.
      (\<forall>r\<in>set (selectChain c doc). \<not> D (snd r) \<longrightarrow> snd r \<in> snd ` set (selectChain c doc'))
    \<and> snd ` set (selectChain c doc') \<subseteq> snd ` set (selectChain c doc))"

subsection \<open>Notions used to follow nodes across a removal\<close>

text \<open>What a name test or an attribute predicate can see of a node.\<close>

definition shallow :: "node \<Rightarrow> nat \<times> jsstring \<times> jsstring \<times> attribute list" where
  "shallow n = (nodeType n, namespaceURI n, nodeName n, attributes n)"

text \<open>Where a position of the tree after a removal was before it: the inverse of \<open>adjust\<close>.\<close>

definition unadjust :: "removal \<Rightarrow> path \<Rightarrow> path" where
  "unadjust rm x = (case rm of (q, lo, r) \<Rightarrow>
     if prefix q x \<and> length q < length x \<and> lo \<le> x ! length q
     then q @ (x ! length q + r) # drop (Suc (length q)) x else x)"

text \<open>The positions of the held references that are still in the document.\<close>

definition heldPaths :: "heldref list \<Rightarrow> path list" where
  "heldPaths hs = List.map_filter fst hs"

definition selected :: "string list list \<Rightarrow> node \<Rightarrow> noderef set" where
  "selected C doc = (\<Union>c\<in>set C. set (selectChain c doc))"

text \<open>
  Held references that are all \<open>D\<close> and, while still in the document, are among the
  selected nodes.
\<close>

definition validHeld :: "string list list \<Rightarrow> (node \<Rightarrow> bool) \<Rightarrow> node \<Rightarrow> heldref list \<Rightarrow> bool" where
  "validHeld C D doc hs =
     (\<forall>h\<in>set hs. D (snd h) \<and> (\<forall>x. fst h = Some x \<longrightarrow> (x, snd h) \<in> selected C doc))"

section \<open>A sample host\<close>

text \<open>
  The concrete instances below run on a host whose serializer writes elements, text and
  comments the way xmldom does for names and data that need no escaping (an element
  without children is written self-closing and without a space), and whose parser knows
  the texts of the instances.
\<close>

fun sampleSerialize :: "node \<Rightarrow> jsstring"
  and sampleSerializeAll :: "node list \<Rightarrow> jsstring" where
  "sampleSerialize (ElementNS ns nm as cs) =
     js ''<'' @ nm @ concat (map (\<lambda>(ans, k, v). js '' '' @ k @ js ''=\"'' @ v @ js ''\"'') as)
       @ (if cs = [] then js ''/>'' else js ''>'' @ sampleSerializeAll cs @ js ''</'' @ nm @ js ''>'')"
| "sampleSerialize (Attr nm v) = v"
| "sampleSerialize (Text d) = d"
| "sampleSerialize (CDATASection d) = js ''<![CDATA['' @ d @ js '']]>''"
| "sampleSerialize (ProcessingInstruction t d) = js ''<?'' @ t @ js '' '' @ d @ js ''?>''"
| "sampleSerialize (Comment d) = js ''<!--'' @ d @ js ''-->''"
| "sampleSerialize (Document cs ex) = sampleSerializeAll cs"
| "sampleSerialize (DocumentType nm) = js ''<!DOCTYPE '' @ nm @ js ''>''"
| "sampleSerialize (OtherNode k) = []"
| "sampleSerializeAll [] = []"
| "sampleSerializeAll (c # cs) = sampleSerialize c @ sampleSerializeAll cs"

text \<open>A \<open>NuGet.config\<close> with a \<open>clear\<close> marker and one source, and two sources to merge.\<close>

definition sampleSourcesChildren :: "node list" where
  "sampleSourcesChildren =
     [Text (js ''\<newline>    ''), Element (js ''clear'') [] [],
      Text (js ''\<newline>    ''),
      Element (js ''add'') [([], js ''key'', js ''X''), ([], js ''value'', js ''http://x'')] [],
      Text (js ''\<newline>  '')]"

definition sampleConfigChildren :: "node list" where
  "sampleConfigChildren =
     [Element (js ''configuration'') []
        [Text (js ''\<newline>  ''),
         Element (js ''packageSources'') [] sampleSourcesChildren,
         Text (js ''\<newline>'')]]"

definition sampleConfig :: node where
  "sampleConfig = Document sampleConfigChildren
     (Some \<lparr> setupBonsaiHadBom = False, setupBonsaiEndsWithNewLine = True,
              setupBonsaiLineEndings = [LF] \<rparr>)"

definition sampleConfigText :: jsstring where
  "sampleConfigText = js (''<configuration>\<newline>  <packageSources>\<newline>    <clear />\<newline>''
     @ ''    <add key=\"X\" value=\"http://x\" />\<newline>  </packageSources>\<newline></configuration>\<newline>'')"

definition sourceA :: NuGetPackageSource where
  "sourceA = \<lparr> name = js ''A'', url = js ''/cache'', allowUpdate = False \<rparr>"

definition sourceX :: "bool \<Rightarrow> NuGetPackageSource" where
  "sourceX allow = \<lparr> name = js ''X'', url = js ''/injected'', allowUpdate = allow \<rparr>"

text \<open>
  A \<open>Bonsai.config\<close> with two packages. Each has an assembly reference, an assembly
  location and a library folder; those of \<open>Foo\<close> are written with backslashes, those of
  \<open>Bar\<close> with slashes.
\<close>

definition record0 :: "string \<Rightarrow> (string \<times> string) list \<Rightarrow> node" where
  "record0 nm as = Element (js nm) (map (\<lambda>(k, v). ([], js k, js v)) as) []"

definition container0 :: "string \<Rightarrow> node list \<Rightarrow> node" where
  "container0 nm items =
     Element (js nm) []
       (concat (map (\<lambda>i. [Text (js ''\<newline>    ''), i]) items) @ [Text (js ''\<newline>  '')])"

definition withBackslashes :: "node \<Rightarrow> node" where
  "withBackslashes n =
     (case n of ElementNS ns nm as cs \<Rightarrow>
        ElementNS ns nm (map (\<lambda>(ans, k, v). (ans, k, map (\<lambda>c. if c = 47 then 92 else c) v)) as) cs
      | _ \<Rightarrow> n)"

definition sampleManifest :: node where
  "sampleManifest = Document [Element (js ''PackageConfiguration'') []
     [Text (js ''\<newline>  ''),
      container0 ''Packages''
        [record0 ''Package'' [(''id'', ''Foo''), (''version'', ''1.0.0'')],
         record0 ''Package'' [(''id'', ''Bar''), (''version'', ''3.0.0'')]],
      Text (js ''\<newline>  ''),
      container0 ''AssemblyReferences''
        [record0 ''AssemblyReference'' [(''assemblyName'', ''Foo'')],
         record0 ''AssemblyReference'' [(''assemblyName'', ''Bar'')]],
      Text (js ''\<newline>  ''),
      container0 ''AssemblyLocations''
        [withBackslashes (record0 ''AssemblyLocation''
           [(''assemblyName'', ''Foo''), (''location'', ''Packages/Foo.1.0.0/lib/net472/Foo.dll'')]),
         record0 ''AssemblyLocation''
           [(''assemblyName'', ''Bar''), (''location'', ''Packages/Bar.3.0.0/lib/net472/Bar.dll'')]],
      Text (js ''\<newline>  ''),
      container0 ''LibraryFolders''
        [withBackslashes (record0 ''LibraryFolder'' [(''path'', ''Packages/Foo.1.0.0/build/native'')]),
         record0 ''LibraryFolder'' [(''path'', ''Packages/Bar.3.0.0/build/native'')]],
      Text (js ''\<newline>'')]] None"

definition sampleParse :: "jsstring \<Rightarrow> node list option" where
  "sampleParse xml =
     (if xml = js ''<a/>'' \<or> xml = js ''<a />'' \<or> xml = js ''<a />'' @ [CR, LF]
      then Some [Element (js ''a'') [] []]
      else if xml = sampleConfigText then Some sampleConfigChildren
      else None)"

text \<open>
  The host is a POSIX one, with \<open>/work\<close> as its working directory and the environment at
  \<open>/bonsai\<close>. Its \<open>path.join\<close> and \<open>path.relative\<close> are Node's: a path is cut at its
  slashes, empty segments and \<open>.\<close> are dropped, \<open>..\<close> takes the segment before it away (and
  stays only in front of a relative path), and a final slash is kept by \<open>join\<close>; the
  relative path climbs from one resolved path to what the two have in common and then
  goes down to the other. A path exists when a listed path resolves to the same place,
  and removing a path removes it and what is below it.
\<close>

fun splitOn :: "16 word \<Rightarrow> jsstring \<Rightarrow> jsstring list" where
  "splitOn c [] = [[]]"
| "splitOn c (x # xs) =
     (if x = c then [] # splitOn c xs
      else (case splitOn c xs of s # ss \<Rightarrow> (x # s) # ss | [] \<Rightarrow> [[x]]))"

definition joinSegments :: "jsstring list \<Rightarrow> jsstring" where
  "joinSegments segs = (case segs of [] \<Rightarrow> [] | s # ss \<Rightarrow> s @ concat (map (\<lambda>t. 47 # t) ss))"

text \<open>The segments are kept innermost first while they are gone through.\<close>

definition normalizeSegment :: "bool \<Rightarrow> jsstring \<Rightarrow> jsstring list \<Rightarrow> jsstring list" where
  "normalizeSegment allowAboveRoot seg res =
     (if seg = [] \<or> seg = js ''.'' then res
      else if seg = js ''..''
      then (case res of
              s # rest \<Rightarrow> if s \<noteq> js ''..'' then rest
                          else if allowAboveRoot then seg # res else res
            | [] \<Rightarrow> if allowAboveRoot then [seg] else [])
      else seg # res)"

definition normalizeSegments :: "bool \<Rightarrow> jsstring \<Rightarrow> jsstring list" where
  "normalizeSegments allowAboveRoot path =
     rev (fold (normalizeSegment allowAboveRoot) (splitOn 47 path) [])"

definition posixNormalize :: "jsstring \<Rightarrow> jsstring" where
  "posixNormalize path =
     (if path = [] then js ''.''
      else (let isAbsolute = (hd path = 47);
                trailingSeparator = (last path = 47);
                res = joinSegments (normalizeSegments (\<not> isAbsolute) path)
            in if res = [] then (if isAbsolute then js ''/'' else if trailingSeparator then js ''./'' else js ''.'')
               else (if isAbsolute then js ''/'' else []) @ res @ (if trailingSeparator then js ''/'' else [])))"

definition posixJoin :: "jsstring \<Rightarrow> jsstring \<Rightarrow> jsstring" where
  "posixJoin a b =
     (if a = [] \<and> b = [] then js ''.''
      else posixNormalize (if a = [] then b else if b = [] then a else a @ js ''/'' @ b))"

definition posixResolve :: "jsstring \<Rightarrow> jsstring \<Rightarrow> jsstring list" where
  "posixResolve cwd path =
     (if path \<noteq> [] \<and> hd path = 47 then normalizeSegments False path
      else normalizeSegments False (cwd @ js ''/'' @ path))"

definition posixRelative :: "jsstring \<Rightarrow> jsstring \<Rightarrow> jsstring \<Rightarrow> jsstring" where
  "posixRelative cwd a b =
     (if a = b then []
      else (let from = posixResolve cwd a;
                to = posixResolve cwd b;
                common = length (longest_common_prefix from to)
            in joinSegments (replicate (length from - common) (js ''..'') @ drop common to)))"

definition sampleJoin :: "jsstring \<Rightarrow> jsstring \<Rightarrow> jsstring" where
  "sampleJoin = posixJoin"

definition sampleRelative :: "jsstring \<Rightarrow> jsstring \<Rightarrow> jsstring" where
  "sampleRelative = posixRelative (js ''/work'')"

definition sampleExists :: "fileSystem \<Rightarrow> jsstring \<Rightarrow> bool" where
  "sampleExists fs q =
     list_ex (\<lambda>x. posixResolve (js ''/work'') x = posixResolve (js ''/work'') q) fs"

definition sampleRemove :: "fileSystem \<Rightarrow> jsstring \<Rightarrow> fileSystem" where
  "sampleRemove fs q =
     filter (\<lambda>x. \<not> prefix (posixResolve (js ''/work'') q) (posixResolve (js ''/work'') x)) fs"

definition sampleHost :: "jsstring \<Rightarrow> platform" where
  "sampleHost eol =
     \<lparr> parseFromString = sampleParse, serializeToString = sampleSerialize, os_EOL = eol,
       path_join = sampleJoin, path_relative = sampleRelative,
       fs_existsSync = sampleExists, fs_rmSync = sampleRemove,
       rootPath = js ''/bonsai'' \<rparr>"

text \<open>
  A package \<open>Foo\<close> \<open>2.0.0\<close> to inject, and the state of the loop of \<open>injectPackages\<close> at
  its start on the sample manifest, with the directory of \<open>Foo\<close> \<open>1.0.0\<close> on disk.
\<close>

definition sampleUpdate :: LocalNuGetPackage where
  "sampleUpdate = \<lparr> id' = js ''Foo'', version = js ''2.0.0'' \<rparr>"

definition sampleState :: injectState where
  "sampleState =
     \<lparr> bonsaiConfig = sampleManifest,
       packagesNode = (case select1Element (bonsaiConfigPackagesSelector sampleManifest) of
                         Inr (Some container) \<Rightarrow> hold container
                       | _ \<Rightarrow> (None, sampleManifest)),
       directories = [js ''/bonsai/Packages/Foo.1.0.0'', js ''/bonsai/Packages/Bar.3.0.0''],
       effects = [] \<rparr>"

text \<open>A manifest whose only assembly location is written without the \<open>Packages\<close> directory.\<close>

definition strayManifest :: node where
  "strayManifest = Document [Element (js ''PackageConfiguration'') []
     [Text (js ''\<newline>  ''),
      container0 ''Packages''
        [record0 ''Package'' [(''id'', ''Foo''), (''version'', ''1.0.0'')]],
      Text (js ''\<newline>  ''),
      container0 ''AssemblyLocations''
        [record0 ''AssemblyLocation''
           [(''assemblyName'', ''Foo''), (''location'', ''Foo.1.0.0/lib/net472/Foo.dll'')]],
      Text (js ''\<newline>'')]] None"
section \<open>Format metadata recorded by parseXml\<close>

declare replaceAll.simps(2) [simp del]

lemmas sample_eval = js_def parseXml_def stripBom_def sampleHost_def sampleParse_def
  endsWithNewLine_def xmlToString_def replaceAll.simps(2) Let_def

lemma matchEol_first_newline:
  "matchEol s =
     (if LF \<notin> set s then None
      else if takeWhile (\<lambda>c. c \<noteq> LF) s \<noteq> [] \<and> last (takeWhile (\<lambda>c. c \<noteq> LF) s) = CR
        then Some [CR, LF] else Some [LF])"
proof (induction s)
  case Nil
  then show ?case by simp
next
  case (Cons c cs)
  show ?case
  proof (cases cs)
    case Nil
    then show ?thesis by simp
  next
    case (Cons d ds)
    with Cons.IH show ?thesis by (cases "d = LF") auto
  qed
qed

text \<open>
  Claim C9, as the code has it. \<open>parseXml\<close> records whether the text began with the
  byte-order mark and hands the parser the text without it; it records whether that text
  ends with a line feed; and it records the line ending found at the first line feed of
  the text: the two-character form when a carriage return stands right before it, the
  single line feed otherwise. When the text has no line feed at all, the recorded style is
  the end-of-line of the host, \<open>os.EOL\<close>.
\<close>

theorem parseXml_metadata:
  assumes "parseXml p input = Inr d"
  defines "body \<equiv> (if input \<noteq> [] \<and> hd input = BOM then tl input else input)"
  shows "\<exists>cs e. d = Document cs (Some e)
           \<and> parseFromString p body = Some cs
           \<and> setupBonsaiHadBom e = (input \<noteq> [] \<and> hd input = BOM)
           \<and> setupBonsaiEndsWithNewLine e = (body \<noteq> [] \<and> last body = LF)
           \<and> setupBonsaiLineEndings e =
               (if LF \<notin> set body then os_EOL p
                else if takeWhile (\<lambda>c. c \<noteq> LF) body \<noteq> []
                        \<and> last (takeWhile (\<lambda>c. c \<noteq> LF) body) = CR
                  then [CR, LF] else [LF])"
proof -
  have sb: "stripBom input = (input \<noteq> [] \<and> hd input = BOM, body)"
    by (simp add: stripBom_def body_def)
  from assms(1) obtain cs where cs: "parseFromString p body = Some cs"
    and d: "d = Document cs (Some \<lparr>
            setupBonsaiHadBom = (input \<noteq> [] \<and> hd input = BOM),
            setupBonsaiEndsWithNewLine = endsWithNewLine body,
            setupBonsaiLineEndings = (case matchEol body of Some eol \<Rightarrow> eol | None \<Rightarrow> os_EOL p) \<rparr>)"
    by (cases "parseFromString p body") (auto simp: parseXml_def sb)
  have le: "(case matchEol body of Some eol \<Rightarrow> eol | None \<Rightarrow> os_EOL p) =
               (if LF \<notin> set body then os_EOL p
                else if takeWhile (\<lambda>c. c \<noteq> LF) body \<noteq> []
                        \<and> last (takeWhile (\<lambda>c. c \<noteq> LF) body) = CR
                  then [CR, LF] else [LF])"
    unfolding matchEol_first_newline[of body] by (cases "LF \<in> set body") simp_all
  show ?thesis
    unfolding d using cs le by (simp add: endsWithNewLine_def)
qed

theorem parseXml_metadata_witness:
  "parseXml (sampleHost [LF]) (BOM # js ''<a />'' @ [CR, LF])
     = Inr (Document [Element (js ''a'') [] []]
         (Some \<lparr> setupBonsaiHadBom = True, setupBonsaiEndsWithNewLine = True,
                  setupBonsaiLineEndings = [CR, LF] \<rparr>))
   \<and> (\<exists>cs e. Document [Element (js ''a'') [] []]
         (Some \<lparr> setupBonsaiHadBom = True, setupBonsaiEndsWithNewLine = True,
                  setupBonsaiLineEndings = [CR, LF] \<rparr>) = Document cs (Some e)
        \<and> sampleParse (js ''<a />'' @ [CR, LF]) = Some cs
        \<and> setupBonsaiHadBom e \<and> setupBonsaiEndsWithNewLine e
        \<and> setupBonsaiLineEndings e = [CR, LF])"
proof -
  let ?d = "Document [Element (js ''a'') [] []]
         (Some \<lparr> setupBonsaiHadBom = True, setupBonsaiEndsWithNewLine = True,
                  setupBonsaiLineEndings = [CR, LF] \<rparr>)"
  have parsed: "parseXml (sampleHost [LF]) (BOM # js ''<a />'' @ [CR, LF]) = Inr ?d"
    by (simp add: sample_eval)
  from parseXml_metadata[OF parsed] parsed show ?thesis
    by (simp add: js_def sampleHost_def)
qed

text \<open>
  Claim C9 as stated fails: for a text without any line feed the recorded style is not
  independent of the host. The same text is recorded with the two-character style on a
  host whose \<open>os.EOL\<close> is the two-character form and with the single line feed elsewhere.
\<close>

theorem parseXml_default_eol_counterexample:
  "parseXml (sampleHost [CR, LF]) (js ''<a />'')
     = Inr (Document [Element (js ''a'') [] []]
         (Some \<lparr> setupBonsaiHadBom = False, setupBonsaiEndsWithNewLine = False,
                  setupBonsaiLineEndings = [CR, LF] \<rparr>))
   \<and> parseXml (sampleHost [LF]) (js ''<a />'')
     = Inr (Document [Element (js ''a'') [] []]
         (Some \<lparr> setupBonsaiHadBom = False, setupBonsaiEndsWithNewLine = False,
                  setupBonsaiLineEndings = [LF] \<rparr>))"
  by (simp add: sample_eval)

section \<open>Round trip of parseXml and xmlToString\<close>

lemma toLF_Cons:
  "replaceAll (c # cs) [CR, LF] [LF] =
     (if c = CR \<and> cs \<noteq> [] \<and> hd cs = LF then LF # replaceAll (tl cs) [CR, LF] [LF]
      else c # replaceAll cs [CR, LF] [LF])"
  by (cases cs) (auto simp: drop_Suc replaceAll.simps(2))

lemma toCRLF_Cons:
  "replaceAll (c # cs) [LF] [CR, LF] =
     (if c = LF then CR # LF # replaceAll cs [LF] [CR, LF] else c # replaceAll cs [LF] [CR, LF])"
  by (simp add: replaceAll.simps(2))

lemma toCRLF_append:
  "replaceAll (xs @ ys) [LF] [CR, LF] = replaceAll xs [LF] [CR, LF] @ replaceAll ys [LF] [CR, LF]"
  by (induction xs) (simp_all only: append_Nil append_Cons toCRLF_Cons replaceAll.simps(1) split: if_split, simp_all)

lemma toLF_nonempty: "s \<noteq> [] \<Longrightarrow> replaceAll s [CR, LF] [LF] \<noteq> []"
  by (cases s) (simp_all only: toLF_Cons split: if_split, simp_all)

lemma toLF_ends: "endsWithNewLine (replaceAll s [CR, LF] [LF]) = endsWithNewLine s"
proof (induction s rule: lfOnlyAfterCr.induct)
  case 1
  then show ?case by simp
next
  case (2 c cs)
  show ?case
  proof (cases "c = CR \<and> cs \<noteq> [] \<and> hd cs = LF")
    case True
    then obtain ds where cs: "cs = LF # ds" by (cases cs) auto
    have ih: "endsWithNewLine (replaceAll ds [CR, LF] [LF]) = endsWithNewLine ds"
      using 2(1) True cs by simp
    from True have c: "c = CR" by simp
    have step: "replaceAll (CR # LF # ds) [CR, LF] [LF] = LF # replaceAll ds [CR, LF] [LF]"
      by (simp add: toLF_Cons)
    show ?thesis
    proof (cases "ds = []")
      case True
      then show ?thesis using step by (simp add: c cs endsWithNewLine_def)
    next
      case False
      with ih toLF_nonempty[OF False] show ?thesis
        by (simp add: step c cs endsWithNewLine_def)
    qed
  next
    case False
    have ih: "endsWithNewLine (replaceAll cs [CR, LF] [LF]) = endsWithNewLine cs"
      using 2(2) False by simp
    have step: "replaceAll (c # cs) [CR, LF] [LF] = c # replaceAll cs [CR, LF] [LF]"
      by (subst toLF_Cons, rule if_not_P, rule False)
    show ?thesis
    proof (cases "cs = []")
      case True
      then show ?thesis using step by (simp add: endsWithNewLine_def)
    next
      case nonempty: False
      with ih toLF_nonempty[OF nonempty] show ?thesis
        by (simp add: step endsWithNewLine_def)
    qed
  qed
qed

lemma crlf_of_lf:
  "lfOnlyAfterCr s \<Longrightarrow> replaceAll (replaceAll s [CR, LF] [LF]) [LF] [CR, LF] = s"
proof (induction s rule: lfOnlyAfterCr.induct)
  case 1
  then show ?case by simp
next
  case (2 c cs)
  show ?case
  proof (cases "c = CR \<and> cs \<noteq> [] \<and> hd cs = LF")
    case True
    then obtain ds where cs: "cs = LF # ds" by (cases cs) auto
    from True have c: "c = CR" by simp
    have step: "replaceAll (CR # LF # ds) [CR, LF] [LF] = LF # replaceAll ds [CR, LF] [LF]"
      by (simp add: toLF_Cons)
    from 2(1)[OF True] 2(3) True cs
    have "replaceAll (replaceAll ds [CR, LF] [LF]) [LF] [CR, LF] = ds" by simp
    then show ?thesis by (simp add: step c cs toCRLF_Cons)
  next
    case False
    have step: "replaceAll (c # cs) [CR, LF] [LF] = c # replaceAll cs [CR, LF] [LF]"
      by (subst toLF_Cons, rule if_not_P, rule False)
    have unf: "lfOnlyAfterCr (c # cs) = (c \<noteq> LF \<and> lfOnlyAfterCr cs)"
      by (subst lfOnlyAfterCr.simps, rule if_not_P, rule False)
    from 2(2)[OF False] 2(3) unf
    have "replaceAll (replaceAll cs [CR, LF] [LF]) [LF] [CR, LF] = cs" and "c \<noteq> LF" by simp_all
    then show ?thesis by (simp add: step toCRLF_Cons)
  qed
qed

text \<open>
  Claim C1, as the code has it. Write \<open>body\<close> for the input without its byte-order mark.
  When the serializer's output for the parsed document, after the rewrite of \<open>/>\<close> to
  \<open> />\<close>, is the body without its final line feed (and, for a text in the two-character
  style, with every line ending reduced to a line feed), and when in a text of the
  two-character style every line feed follows a carriage return, then serializing the
  parsed document gives back the input: the byte-order mark, the final newline and the
  line endings are all restored.
\<close>

theorem xmlToString_parseXml_roundtrip:
  assumes parsed: "parseXml p input = Inr d"
  defines "body \<equiv> (if input \<noteq> [] \<and> hd input = BOM then tl input else input)"
  defines "crlf \<equiv> ((case matchEol body of Some eol \<Rightarrow> eol | None \<Rightarrow> os_EOL p) = [CR, LF])"
  defines "lf \<equiv> (if crlf then replaceAll body [CR, LF] [LF] else body)"
  assumes library: "replaceAll (serializeToString p d) (js ''/>'') (js '' />'')
                      = (if endsWithNewLine body then butlast lf else lf)"
  assumes uniform: "crlf \<longrightarrow> lfOnlyAfterCr body"
  shows "xmlToString p d = input"
proof -
  have sb: "stripBom input = (input \<noteq> [] \<and> hd input = BOM, body)"
    by (simp add: stripBom_def body_def)
  from parsed obtain cs where
    d: "d = Document cs (Some \<lparr>
            setupBonsaiHadBom = (input \<noteq> [] \<and> hd input = BOM),
            setupBonsaiEndsWithNewLine = endsWithNewLine body,
            setupBonsaiLineEndings = (case matchEol body of Some eol \<Rightarrow> eol | None \<Rightarrow> os_EOL p) \<rparr>)"
    by (cases "parseFromString p body") (auto simp: parseXml_def sb)
  define core where "core = (if endsWithNewLine body then butlast lf else lf)"
  define withNl where "withNl = (if endsWithNewLine body then core @ [LF] else core)"
  have lf_ends: "endsWithNewLine lf = endsWithNewLine body"
    by (simp add: lf_def toLF_ends)
  have "butlast lf @ [LF] = lf" if "endsWithNewLine body"
  proof -
    from that lf_ends have "lf \<noteq> []" and "last lf = LF"
      by (simp_all add: endsWithNewLine_def)
    with append_butlast_last_id[of lf] show ?thesis by simp
  qed
  then have withNl: "withNl = lf"
    by (simp add: withNl_def core_def)
  have restored: "(if crlf then replaceAll withNl [LF] [CR, LF] else withNl) = body"
    using uniform by (auto simp: withNl lf_def crlf_of_lf)
  have bom: "(if input \<noteq> [] \<and> hd input = BOM then BOM # body else body) = input"
    by (cases input) (auto simp: body_def)
  have out: "xmlToString p d =
      (if crlf
       then replaceAll ((if input \<noteq> [] \<and> hd input = BOM then [BOM] else []) @ withNl) [LF] [CR, LF]
       else (if input \<noteq> [] \<and> hd input = BOM then [BOM] else []) @ withNl)"
  proof -
    have ex: "extraOf d = Some \<lparr>
            setupBonsaiHadBom = (input \<noteq> [] \<and> hd input = BOM),
            setupBonsaiEndsWithNewLine = endsWithNewLine body,
            setupBonsaiLineEndings = (case matchEol body of Some eol \<Rightarrow> eol | None \<Rightarrow> os_EOL p) \<rparr>"
      by (simp add: d)
    show ?thesis
      unfolding xmlToString_def Let_def ex library
      by (simp add: crlf_def withNl_def core_def)
  qed
  show ?thesis
    using restored bom unfolding out
    by (auto simp: toCRLF_append toCRLF_Cons split: if_splits)
qed

theorem xmlToString_parseXml_roundtrip_witness:
  "parseXml (sampleHost [LF]) (BOM # js ''<a />'' @ [CR, LF])
     = Inr (Document [Element (js ''a'') [] []]
         (Some \<lparr> setupBonsaiHadBom = True, setupBonsaiEndsWithNewLine = True,
                  setupBonsaiLineEndings = [CR, LF] \<rparr>))
   \<and> lfOnlyAfterCr (js ''<a />'' @ [CR, LF])
   \<and> xmlToString (sampleHost [LF]) (Document [Element (js ''a'') [] []]
         (Some \<lparr> setupBonsaiHadBom = True, setupBonsaiEndsWithNewLine = True,
                  setupBonsaiLineEndings = [CR, LF] \<rparr>)) = BOM # js ''<a />'' @ [CR, LF]"
proof -
  let ?d = "Document [Element (js ''a'') [] []]
         (Some \<lparr> setupBonsaiHadBom = True, setupBonsaiEndsWithNewLine = True,
                  setupBonsaiLineEndings = [CR, LF] \<rparr>)"
  let ?t = "BOM # js ''<a />'' @ [CR, LF]"
  have parsed: "parseXml (sampleHost [LF]) ?t = Inr ?d"
    by (simp add: sample_eval)
  have uniform: "lfOnlyAfterCr (js ''<a />'' @ [CR, LF])"
    by (simp add: js_def)
  from xmlToString_parseXml_roundtrip[of "sampleHost [LF]" ?t ?d] parsed uniform
  show ?thesis
    by (simp add: js_def sampleHost_def endsWithNewLine_def replaceAll.simps(2))
qed

text \<open>
  Claim C1 as stated fails on a well-formed text whose self-closing tag has no space
  before \<open>/>\<close>: the parsed document is written back with the space added.
\<close>

theorem roundtrip_counterexample:
  "parseXml (sampleHost [LF]) (js ''<a/>'')
     = Inr (Document [Element (js ''a'') [] []]
         (Some \<lparr> setupBonsaiHadBom = False, setupBonsaiEndsWithNewLine = False,
                  setupBonsaiLineEndings = [LF] \<rparr>))
   \<and> xmlToString (sampleHost [LF]) (Document [Element (js ''a'') [] []]
         (Some \<lparr> setupBonsaiHadBom = False, setupBonsaiEndsWithNewLine = False,
                  setupBonsaiLineEndings = [LF] \<rparr>)) = js ''<a />''
   \<and> js ''<a />'' \<noteq> js ''<a/>''"
  by (simp add: sample_eval)

section \<open>Single-result selectors look at the first match only\<close>

text \<open>
  Claim C10. When a query matches more than one node, each single-result selector answers
  as it would for the first match alone: \<open>select1Node\<close> returns the first match, and the
  typed selectors check the node kind of the first match and of no other. Further matches,
  of whatever kind, never make the selector fail.
\<close>

theorem checkedSelect1_first_match_only:
  "checkedSelect1 (XNodeSet (n # m # ms)) ty = checkedSelect1 (XNodeSet [n]) ty
   \<and> select1Node (XNodeSet (n # m # ms)) = Inr (Some n)
   \<and> select1Element (XNodeSet (n # m # ms)) = select1Element (XNodeSet [n])
   \<and> select1Attribute (XNodeSet (n # m # ms)) = select1Attribute (XNodeSet [n])
   \<and> select1Text (XNodeSet (n # m # ms)) = select1Text (XNodeSet [n])
   \<and> select1Element (XNodeSet [n]) =
       (if nodeType (snd n) = ELEMENT_NODE then Inr (Some n)
        else if nodeType (snd n) = 0 then Inl NonsensicalResult
        else Inl (UnexpectedNodeKind ELEMENT_NODE (nodeType (snd n))))"
  by (simp add: checkedSelect1_def select1Node_def select1Element_def select1Attribute_def
      select1Text_def)

theorem checkedSelect1_first_match_only_witness:
  "select1Element (XNodeSet [([0], Element (js ''a'') [] []), ([0, 0], Text (js ''x'')),
      ([1], Comment (js ''y''))]) = Inr (Some ([0], Element (js ''a'') [] []))
   \<and> select1Text (XNodeSet [([0], Element (js ''a'') [] []), ([0, 0], Text (js ''x'')),
      ([1], Comment (js ''y''))]) = Inl (UnexpectedNodeKind TEXT_NODE ELEMENT_NODE)"
  using checkedSelect1_first_match_only[of "([0], Element (js ''a'') [] [])"
      "([0, 0], Text (js ''x''))" "[([1], Comment (js ''y''))]" None]
  by (simp add: checkedSelect1_def select1Node_def select1Element_def select1Attribute_def
      select1Text_def)

section \<open>Merging package sources: the two loops\<close>


lemma insertedNodes_simps [simp]:
  "insertedNodes indent [] = []"
  "insertedNodes indent (s # ss) = cloneNode indent # newSourceElement s # insertedNodes indent ss"
  "length (insertedNodes indent ss) = 2 * length ss"
  by (induction ss) (simp_all add: insertedNodes_def)

lemma insertedNodes_append:
  "insertedNodes indent (xs @ ys) = insertedNodes indent xs @ insertedNodes indent ys"
  by (simp add: insertedNodes_def)

lemma addSources_ok:
  assumes "distinct (map name sources)"
    and "\<forall>s \<in> set sources. m (name s) = None"
    and "ip \<le> length cs"
  shows "addSources indent sources (m, cs, ip) =
           (None, (\<lambda>k. case find (\<lambda>s. name s = k) sources of Some s \<Rightarrow> Some s | None \<Rightarrow> m k,
                   take ip cs @ insertedNodes indent sources @ drop ip cs,
                   ip + 2 * length sources))"
  using assms
proof (induction sources arbitrary: m cs ip)
  case Nil
  then show ?case by simp
next
  case (Cons s ss)
  let ?m = "m(name s \<mapsto> s)"
  let ?cs = "take ip cs @ [cloneNode indent, newSourceElement s] @ drop ip cs"
  have d: "distinct (map name ss)" using Cons.prems(1) by simp
  have fresh: "\<forall>t \<in> set ss. ?m (name t) = None"
  proof
    fix t assume t: "t \<in> set ss"
    with Cons.prems(1) have "name t \<noteq> name s" by (metis distinct.simps(2) imageI list.simps(9) list.set_map)
    with t Cons.prems(2) show "?m (name t) = None" by simp
  qed
  have len: "ip + 2 \<le> length ?cs" using Cons.prems(3) by simp
  have tk: "take (ip + 2) ?cs = take ip cs @ [cloneNode indent, newSourceElement s]"
    using Cons.prems(3) by simp
  have dr: "drop (ip + 2) ?cs = drop ip cs"
    using Cons.prems(3) by simp
  have map_eq: "(\<lambda>k. case find (\<lambda>t. name t = k) ss of Some t \<Rightarrow> Some t | None \<Rightarrow> ?m k)
      = (\<lambda>k. case find (\<lambda>t. name t = k) (s # ss) of Some t \<Rightarrow> Some t | None \<Rightarrow> m k)"
  proof
    fix k
    show "(case find (\<lambda>t. name t = k) ss of Some t \<Rightarrow> Some t | None \<Rightarrow> ?m k)
      = (case find (\<lambda>t. name t = k) (s # ss) of Some t \<Rightarrow> Some t | None \<Rightarrow> m k)"
    proof (cases "name s = k")
      case True
      have "name t \<noteq> k" if "t \<in> set ss" for t
        using that True Cons.prems(1) by (metis distinct.simps(2) imageI list.simps(9) list.set_map)
      then have "find (\<lambda>t. name t = k) ss = None"
        by (simp add: find_None_iff)
      with True show ?thesis by simp
    next
      case False
      then show ?thesis by (simp split: option.splits)
    qed
  qed
  have "addSources indent (s # ss) (m, cs, ip) = addSources indent ss (?m, ?cs, ip + 2)"
    using Cons.prems(2) by simp
  also have "\<dots> = (None, (\<lambda>k. case find (\<lambda>t. name t = k) ss of Some t \<Rightarrow> Some t | None \<Rightarrow> ?m k,
                   take (ip + 2) ?cs @ insertedNodes indent ss @ drop (ip + 2) ?cs,
                   ip + 2 + 2 * length ss))"
    by (rule Cons.IH[OF d fresh len])
  finally show ?case
    unfolding tk dr map_eq by simp
qed

lemma addSources_append:
  "addSources indent (xs @ ys) st =
     (case addSources indent xs st of
        (None, st') \<Rightarrow> addSources indent ys st'
      | (Some e, st') \<Rightarrow> (Some e, st'))"
proof (induction xs arbitrary: st)
  case Nil
  then show ?case by simp
next
  case (Cons x xs)
  obtain m cs ip where st: "st = (m, cs, ip)" by (cases st) auto
  show ?case unfolding st using Cons.IH by simp
qed

lemma first_repeat:
  "\<not> distinct xs \<Longrightarrow> \<exists>pre x rest. xs = pre @ x # rest \<and> distinct pre \<and> x \<in> set pre"
proof (induction xs rule: rev_induct)
  case Nil
  then show ?case by simp
next
  case (snoc y ys)
  show ?case
  proof (cases "distinct ys")
    case True
    with snoc.prems have "y \<in> set ys" by simp
    with True have "ys @ [y] = ys @ y # [] \<and> distinct ys \<and> y \<in> set ys" by simp
    then show ?thesis by blast
  next
    case False
    from snoc.IH[OF False] obtain pre x rest where
      "ys = pre @ x # rest" "distinct pre" "x \<in> set pre" by blast
    then have "ys @ [y] = pre @ x # (rest @ [y]) \<and> distinct pre \<and> x \<in> set pre" by simp
    then show ?thesis by blast
  qed
qed

lemma addSources_duplicate:
  assumes "distinct (map name pre)" and "name s \<in> set (map name pre)" and "ip \<le> length cs"
  shows "addSources indent (pre @ s # rest) (Map.empty, cs, ip) =
           (Some (DuplicateSourceName (name s)),
            (\<lambda>k. find (\<lambda>s. name s = k) pre,
             take ip cs @ insertedNodes indent pre @ drop ip cs,
             ip + 2 * length pre))"
proof -
  have ok: "addSources indent pre (Map.empty, cs, ip) =
           (None, (\<lambda>k. case find (\<lambda>s. name s = k) pre of Some s \<Rightarrow> Some s | None \<Rightarrow> None,
                   take ip cs @ insertedNodes indent pre @ drop ip cs,
                   ip + 2 * length pre))"
    by (rule addSources_ok) (use assms in auto)
  have m: "(\<lambda>k. case find (\<lambda>s. name s = k) pre of Some s \<Rightarrow> Some s | None \<Rightarrow> None)
         = (\<lambda>k. find (\<lambda>s. name s = k) pre)"
    by (auto split: option.splits)
  from assms(2) have "find (\<lambda>t. name t = name s) pre \<noteq> None"
    by (auto simp: find_None_iff)
  then show ?thesis
    unfolding addSources_append ok m by simp
qed

lemma attributeAxis_first:
  "(case map (\<lambda>(i, (ns, k, v)). (q @ [i], Attr k v))
           (filter (\<lambda>(i, (ns, k, v)). P ns k) (enumerate j as)) of
      [] \<Rightarrow> Inr None
    | r # rs \<Rightarrow> (if nodeType (snd r) = 2 then Inr (nodeValue (snd r)) else Inl e))
   = Inr (map_option (\<lambda>(ns, k, v). v) (find (\<lambda>(ns, k, v). P ns k) as))"
  by (induction as arbitrary: j) auto

lemma attributeValue_total:
  "attributeValue lit n =
     Inr (map_option (\<lambda>(ns, k, v). v) (find (\<lambda>(ns, k, v). nameMatches lit ns k) (attributes n)))"
proof -
  let ?xs = "attributeAxis lit ([], n)"
  have "attributeValue lit n =
      (case ?xs of [] \<Rightarrow> Inr None
       | r # rs \<Rightarrow> (if nodeType (snd r) = 2 then Inr (nodeValue (snd r)) else Inl AssertionError))"
    by (cases ?xs) (auto simp: attributeValue_def select1Attribute_def checkedSelect1_def attributeAxis_def)
  also have "\<dots> = Inr (map_option (\<lambda>(ns, k, v). v)
                        (find (\<lambda>(ns, k, v). nameMatches lit ns k) (attributes n)))"
    unfolding attributeAxis_def
    using attributeAxis_first[where q="[]" and P="nameMatches lit"
        and j=0 and as="attributes n" and e=AssertionError]
    by simp
  finally show ?thesis .
qed

lemma disableReplaced_pass:
  assumes "passable m n"
  shows "disableReplaced p m (n # rest) =
           (case disableReplaced p m rest of (e, rest') \<Rightarrow> (e, disable p m n # rest'))"
  using assms
  by (auto simp: passable_def disable_def replacedBy_def attributeValue_total
      split: option.splits prod.splits sum.splits)

lemma disableReplaced_fail:
  assumes "\<not> passable m n"
  shows "\<exists>e. disableReplaced p m (n # rest) = (Some e, n # rest)"
  using assms
  by (auto simp: passable_def attributeValue_total split: option.splits prod.splits sum.splits)

lemma disableReplaced_append:
  assumes "list_all (passable m) pre"
  shows "disableReplaced p m (pre @ xs) =
           (case disableReplaced p m xs of (e, xs') \<Rightarrow> (e, map (disable p m) pre @ xs'))"
  using assms
proof (induction pre)
  case Nil
  then show ?case by simp
next
  case (Cons n pre)
  then have n: "passable m n" and pre: "list_all (passable m) pre" by simp_all
  show ?case
    unfolding append_Cons disableReplaced_pass[OF n] Cons.IH[OF pre]
    by (simp split: prod.splits)
qed

lemma disableReplaced_all_pass:
  assumes "list_all (passable m) post"
  shows "disableReplaced p m post = (None, map (disable p m) post)"
  using disableReplaced_append[OF assms, of p "[]"] by simp

lemma disableReplaced_first_fail:
  assumes "list_all (passable m) pre" and "\<not> passable m n"
  shows "\<exists>e. disableReplaced p m (pre @ n # rest) = (Some e, map (disable p m) pre @ n # rest)"
proof -
  from disableReplaced_fail[OF assms(2)] obtain e where
    "disableReplaced p m (n # rest) = (Some e, n # rest)" by blast
  then show ?thesis
    unfolding disableReplaced_append[OF assms(1)] by simp
qed

lemma disableReplaced_success:
  "fst (disableReplaced p m post) = None \<longleftrightarrow> list_all (passable m) post"
proof (induction post)
  case Nil
  then show ?case by simp
next
  case (Cons n post)
  show ?case
  proof (cases "passable m n")
    case True
    obtain e rest' where r: "disableReplaced p m post = (e, rest')"
      by (cases "disableReplaced p m post") auto
    with Cons.IH True show ?thesis
      unfolding disableReplaced_pass[OF True] by simp
  next
    case False
    from disableReplaced_fail[OF False] obtain e where
      "disableReplaced p m (n # post) = (Some e, n # post)" by blast
    with False show ?thesis by simp
  qed
qed

section \<open>Positions, document order and the children of a node\<close>

lemma paths_unfold: "paths n = [] # pathsFrom 0 (childNodes n)"
  by (cases n) simp_all

lemma pathsFrom_conv:
  "pathsFrom i cs = concat (map (\<lambda>j. map ((#) (i + j)) (paths (cs ! j))) [0..<length cs])"
proof (induction cs arbitrary: i)
  case Nil
  then show ?case by simp
next
  case (Cons c cs)
  have "[0..<length (c # cs)] = 0 # map Suc [0..<length cs]"
    by (simp add: upt_conv_Cons map_Suc_upt del: upt_Suc)
  then show ?case
    by (simp add: Cons.IH[of "Suc i"] comp_def del: upt_Suc)
qed

lemma in_pathsFrom:
  "p \<in> set (pathsFrom i cs) \<longleftrightarrow>
     (\<exists>j q. j < length cs \<and> p = (i + j) # q \<and> q \<in> set (paths (cs ! j)))"
  unfolding pathsFrom_conv by auto

lemma mem_paths_iff: "p \<in> set (paths n) \<longleftrightarrow> nodeAt n p \<noteq> None"
proof (induction p arbitrary: n)
  case Nil
  then show ?case by (simp add: paths_unfold)
next
  case (Cons i p)
  show ?case
    unfolding paths_unfold[of n] using Cons.IH
    by (auto simp: in_pathsFrom)
qed

lemma descendantOrSelf_conv:
  "descendantOrSelf root = map (\<lambda>p. (p, the (nodeAt root p))) (paths root)"
proof -
  have "List.map_filter (\<lambda>p. map_option (Pair p) (nodeAt root p)) xs
          = map (\<lambda>p. (p, the (nodeAt root p))) xs"
    if "set xs \<subseteq> set (paths root)" for xs
    using that
    by (induction xs) (auto simp: List.map_filter_simps mem_paths_iff)
  then show ?thesis by (simp add: descendantOrSelf_def)
qed

lemma in_descendantOrSelf:
  "r \<in> set (descendantOrSelf root) \<longleftrightarrow> nodeAt root (fst r) = Some (snd r)"
  unfolding descendantOrSelf_conv by (cases r) (auto simp: mem_paths_iff)

lemma concat_if_singleton:
  "concat (map (\<lambda>j. if R j then [f j] else []) xs) = map f (filter R xs)"
  by (induction xs) simp_all

lemma concat_only_one:
  assumes "k < n"
  shows "concat (map (\<lambda>j. if j = k then X else []) [0..<n]) = X"
proof -
  have split: "[0..<n] = [0..<k] @ k # [Suc k..<n]"
    using assms by (metis le_add1 less_imp_add_positive upt_add_eq_append upt_conv_Cons zero_le)
  have before: "concat (map (\<lambda>j. if j = k then X else []) [0..<k]) = []"
    by (auto simp: concat_eq_Nil_conv)
  have after: "concat (map (\<lambda>j. if j = k then X else []) [Suc k..<n]) = []"
    by (auto simp: concat_eq_Nil_conv)
  show ?thesis
    unfolding split map_append concat_append list.map concat.simps before after by simp
qed

lemma nil_notin_pathsFrom: "[] \<notin> set (pathsFrom i cs)"
  by (simp add: in_pathsFrom)

lemma filter_nil_paths: "filter (\<lambda>q. q = [] \<and> b) (paths n) = (if b then [[]] else [])"
proof -
  have "filter (\<lambda>q. q = [] \<and> b) (pathsFrom 0 (childNodes n)) = []"
    using nil_notin_pathsFrom by (auto simp: filter_empty_conv)
  then show ?thesis by (cases b) (simp_all add: paths_unfold[of n])
qed

lemma filter_children_paths:
  assumes "nodeAt root cp = Some c"
  shows "filter (\<lambda>p. p \<noteq> [] \<and> butlast p = cp \<and> R (last p)) (paths root)
           = map (\<lambda>i. cp @ [i]) (filter R [0..<length (childNodes c)])"
  using assms
proof (induction cp arbitrary: root)
  case Nil
  then have c: "c = root" by simp
  have each: "filter (\<lambda>p. p \<noteq> [] \<and> butlast p = [] \<and> R (last p)) (map ((#) j) (paths m))
              = (if R j then [[j]] else [])" for j m
  proof -
    have "(\<lambda>p. p \<noteq> [] \<and> butlast p = [] \<and> R (last p)) \<circ> (#) j = (\<lambda>q. q = [] \<and> R j)"
      by (auto simp: fun_eq_iff)
    then show ?thesis
      by (simp add: filter_map filter_nil_paths)
  qed
  show ?case
    unfolding c paths_unfold[of root] pathsFrom_conv
    by (simp add: filter_concat comp_def each concat_if_singleton del: upt_Suc)
next
  case (Cons k cp)
  let ?cs = "childNodes root"
  from Cons.prems have k: "k < length ?cs" and sub: "nodeAt (?cs ! k) cp = Some c"
    by (auto split: if_splits)
  have each: "filter (\<lambda>p. p \<noteq> [] \<and> butlast p = k # cp \<and> R (last p)) (map ((#) j) (paths (?cs ! j)))
              = (if j = k then map (\<lambda>i. (k # cp) @ [i]) (filter R [0..<length (childNodes c)]) else [])"
    for j
  proof -
    have eq: "(\<lambda>p. p \<noteq> [] \<and> butlast p = k # cp \<and> R (last p)) \<circ> (#) j
            = (\<lambda>q. j = k \<and> (q \<noteq> [] \<and> butlast q = cp \<and> R (last q)))"
      by (auto simp: fun_eq_iff)
    show ?thesis
    proof (cases "j = k")
      case True
      then show ?thesis
        unfolding filter_map eq using Cons.IH[OF sub] by simp
    next
      case False
      then show ?thesis unfolding filter_map eq by simp
    qed
  qed
  show ?case
    unfolding paths_unfold[of root] pathsFrom_conv
    by (simp add: filter_concat comp_def each concat_only_one[OF k] del: upt_Suc)
qed

lemma nodeAt_append:
  "nodeAt n (p @ q) = (case nodeAt n p of Some m \<Rightarrow> nodeAt m q | None \<Rightarrow> None)"
  by (induction p arbitrary: n) simp_all

lemma nodeAt_snoc:
  "nodeAt n p = Some c \<Longrightarrow>
     nodeAt n (p @ [i]) = (if i < length (childNodes c) then Some (childNodes c ! i) else None)"
  by (simp add: nodeAt_append)

lemma nodeAt_child:
  assumes "nodeAt n p = Some m" and "p \<noteq> []" and "nodeAt n (butlast p) = Some c"
  shows "last p < length (childNodes c) \<and> m = childNodes c ! last p"
proof -
  from assms(2) have "p = butlast p @ [last p]" by simp
  then have "nodeAt n p = nodeAt n (butlast p @ [last p])" by simp
  with assms(1,3) show ?thesis
    by (simp add: nodeAt_snoc split: if_splits)
qed

lemma nodeAt_butlast:
  assumes "nodeAt n p = Some m" and "p \<noteq> []"
  shows "\<exists>c. nodeAt n (butlast p) = Some c"
proof -
  from assms(2) have "p = butlast p @ [last p]" by simp
  then have "nodeAt n (butlast p @ [last p]) = Some m" using assms(1) by simp
  then show ?thesis by (auto simp: nodeAt_append split: option.splits)
qed

lemma filter_children_refs:
  assumes c: "nodeAt root cp = Some c"
  shows "filter (\<lambda>r. fst r \<noteq> [] \<and> butlast (fst r) = cp \<and> Q (last (fst r)) (snd r))
           (descendantOrSelf root)
         = map (\<lambda>i. (cp @ [i], childNodes c ! i))
             (filter (\<lambda>i. Q i (childNodes c ! i)) [0..<length (childNodes c)])"
proof -
  let ?R = "\<lambda>i. Q i (childNodes c ! i)"
  have pred: "(p \<noteq> [] \<and> butlast p = cp \<and> Q (last p) (the (nodeAt root p)))
            = (p \<noteq> [] \<and> butlast p = cp \<and> ?R (last p))"
    if "p \<in> set (paths root)" for p
  proof (cases "p \<noteq> [] \<and> butlast p = cp")
    case True
    from that obtain m where m: "nodeAt root p = Some m" by (auto simp: mem_paths_iff)
    from nodeAt_child[OF m] True c have "m = childNodes c ! last p" by simp
    with m show ?thesis by simp
  next
    case False
    then show ?thesis by auto
  qed
  have "filter (\<lambda>r. fst r \<noteq> [] \<and> butlast (fst r) = cp \<and> Q (last (fst r)) (snd r))
           (descendantOrSelf root)
        = map (\<lambda>p. (p, the (nodeAt root p)))
            (filter (\<lambda>p. p \<noteq> [] \<and> butlast p = cp \<and> Q (last p) (the (nodeAt root p))) (paths root))"
    by (simp add: descendantOrSelf_conv filter_map comp_def)
  also have "filter (\<lambda>p. p \<noteq> [] \<and> butlast p = cp \<and> Q (last p) (the (nodeAt root p))) (paths root)
        = filter (\<lambda>p. p \<noteq> [] \<and> butlast p = cp \<and> ?R (last p)) (paths root)"
    by (rule filter_cong[OF refl]) (rule pred)
  also have "\<dots> = map (\<lambda>i. cp @ [i]) (filter ?R [0..<length (childNodes c)])"
    by (rule filter_children_paths[OF c])
  also have "map (\<lambda>p. (p, the (nodeAt root p))) (map (\<lambda>i. cp @ [i]) (filter ?R [0..<length (childNodes c)]))
        = map (\<lambda>i. (cp @ [i], childNodes c ! i)) (filter ?R [0..<length (childNodes c)])"
    using c by (auto simp: nodeAt_snoc)
  finally show ?thesis .
qed

lemma nths_filter: "map (\<lambda>i. cs ! i) (filter (\<lambda>i. P (cs ! i)) [0..<length cs]) = filter P cs"
proof -
  have "filter P cs = filter P (map (nth cs) [0..<length cs])" by (simp add: map_nth)
  also have "\<dots> = map (nth cs) (filter (P \<circ> nth cs) [0..<length cs])" by (simp only: filter_map)
  finally show ?thesis by (simp add: comp_def)
qed

lemma find_filter: "find P xs = (case filter P xs of [] \<Rightarrow> None | x # ys \<Rightarrow> Some x)"
  by (induction xs) simp_all

lemma first_child_ref:
  "(case map (\<lambda>i. (cp @ [i], cs ! i)) (filter (\<lambda>i. P (cs ! i)) [0..<length cs]) of
      [] \<Rightarrow> A | r # rs \<Rightarrow> B (snd r))
   = (case find P cs of None \<Rightarrow> A | Some t \<Rightarrow> B t)"
proof -
  let ?is = "filter (\<lambda>i. P (cs ! i)) [0..<length cs]"
  have "filter P cs = map (\<lambda>i. cs ! i) ?is" by (simp add: nths_filter)
  then show ?thesis
    unfolding find_filter by (cases ?is) simp_all
qed

lemma last_satisfying:
  "list_ex P cs \<Longrightarrow> \<exists>i<length cs. P (cs ! i) \<and> list_all (\<lambda>n. \<not> P n) (drop (Suc i) cs)"
proof (induction cs rule: rev_induct)
  case Nil
  then show ?case by simp
next
  case (snoc x xs)
  show ?case
  proof (cases "P x")
    case True
    then have "length xs < length (xs @ [x]) \<and> P ((xs @ [x]) ! length xs)
        \<and> list_all (\<lambda>n. \<not> P n) (drop (Suc (length xs)) (xs @ [x]))" by simp
    then show ?thesis by blast
  next
    case False
    with snoc.prems have "list_ex P xs" by simp
    from snoc.IH[OF this] obtain i where i: "i < length xs" "P (xs ! i)"
      "list_all (\<lambda>n. \<not> P n) (drop (Suc i) xs)" by blast
    with False have "i < length (xs @ [x]) \<and> P ((xs @ [x]) ! i)
        \<and> list_all (\<lambda>n. \<not> P n) (drop (Suc i) (xs @ [x]))"
      by (simp add: nth_append)
    then show ?thesis by blast
  qed
qed

lemma updateNth_conv:
  "updateNth f i p cs = (if i < length cs then cs[i := updateAt f p (cs ! i)] else cs)"
proof (induction cs arbitrary: i)
  case Nil
  then show ?case by simp
next
  case (Cons c cs)
  then show ?case by (cases i) simp_all
qed

lemma childNodes_updateAt:
  "childNodes (updateAt f (i # p) n) =
     (if i < length (childNodes n)
      then (childNodes n)[i := updateAt f p (childNodes n ! i)] else childNodes n)"
  by (cases n) (simp_all add: updateNth_conv)

lemma nodeAt_updateAt:
  "nodeAt n p = Some c \<Longrightarrow> nodeAt (updateAt f p n) p = Some (f c)"
proof (induction p arbitrary: n)
  case Nil
  then show ?case by simp
next
  case (Cons i p)
  from Cons.prems have i: "i < length (childNodes n)" and sub: "nodeAt (childNodes n ! i) p = Some c"
    by (auto split: if_splits)
  from Cons.IH[OF sub] i show ?case
    by (simp add: childNodes_updateAt del: updateAt.simps)
qed

section \<open>The anchors of a merge\<close>

lemma checkedSelect1_Some:
  assumes "checkedSelect1 (XNodeSet xs) ty = Inr (Some r)"
  shows "\<exists>rest. xs = r # rest" and "ty = None \<or> ty = Some (nodeType (snd r))"
  using assms by (auto simp: checkedSelect1_def split: list.splits option.splits if_splits)

lemma checkedSelect1_None:
  assumes "checkedSelect1 (XNodeSet xs) ty = Inr None"
  shows "xs = []"
  using assms by (auto simp: checkedSelect1_def split: list.splits option.splits if_splits)

lemma locateAnchors_cases:
  assumes "locateAnchors doc = Inr a"
  shows "\<exists>indent lc.
      select1Element (packageSourcesSelector doc) = Inr (Some (packageSourcesNode a))
    \<and> select1Text (packageSourcesIndentSelector doc) = Inr indent
    \<and> select1Element (lastClearSourceSelector doc) = Inr lc
    \<and> referenceIndentation a = (case indent of Some t \<Rightarrow> snd t | None \<Rightarrow> Text (js ''\<newline>    ''))
    \<and> (case lc of
          None \<Rightarrow> insertionPoint a = 0
        | Some l \<Rightarrow> butlast (fst l) = fst (packageSourcesNode a) \<and> insertionPoint a = Suc (last (fst l)))"
proof -
  from assms obtain container where
    1: "select1Element (packageSourcesSelector doc) = Inr (Some container)"
    by (auto simp: locateAnchors_def split: sum.splits option.splits)
  from assms 1 obtain indent where
    2: "select1Text (packageSourcesIndentSelector doc) = Inr indent"
    by (auto simp: locateAnchors_def split: sum.splits)
  from assms 1 2 obtain lc where
    3: "select1Element (lastClearSourceSelector doc) = Inr lc"
    by (auto simp: locateAnchors_def split: sum.splits)
  from assms show ?thesis
    unfolding locateAnchors_def 1 2 3
    by (cases lc) (auto split: if_splits)
qed

lemma locateAnchors_valid:
  assumes "locateAnchors doc = Inr a"
  shows "nodeAt doc (fst (packageSourcesNode a)) = Some (snd (packageSourcesNode a))"
    and "insertionPoint a \<le> length (childNodes (snd (packageSourcesNode a)))"
proof -
  from locateAnchors_cases[OF assms] obtain indent lc where
    1: "select1Element (packageSourcesSelector doc) = Inr (Some (packageSourcesNode a))"
    and 3: "select1Element (lastClearSourceSelector doc) = Inr lc"
    and ip: "(case lc of
          None \<Rightarrow> insertionPoint a = 0
        | Some l \<Rightarrow> butlast (fst l) = fst (packageSourcesNode a) \<and> insertionPoint a = Suc (last (fst l)))"
    by blast
  from checkedSelect1_Some(1)[OF 1[unfolded select1Element_def packageSourcesSelector_def]]
  have "packageSourcesNode a \<in> set (selectChain [''packageSources'', ''configuration''] doc)"
    by auto
  then show c: "nodeAt doc (fst (packageSourcesNode a)) = Some (snd (packageSourcesNode a))"
    by (simp add: selectChain_def in_descendantOrSelf)
  show "insertionPoint a \<le> length (childNodes (snd (packageSourcesNode a)))"
  proof (cases lc)
    case None
    with ip show ?thesis by simp
  next
    case (Some l)
    with ip have bl: "butlast (fst l) = fst (packageSourcesNode a)"
      and k: "insertionPoint a = Suc (last (fst l))" by simp_all
    from checkedSelect1_Some(1)[OF 3[unfolded Some select1Element_def lastClearSourceSelector_def]]
    obtain rest where "filter (\<lambda>r. elementChain doc [''clear'', ''packageSources'', ''configuration''] (fst r)
                 \<and> (case nodeAt doc (butlast (fst r)) of
                       Some par \<Rightarrow> list_all (\<lambda>n. \<not> nameTest ''clear'' n)
                                    (drop (Suc (last (fst r))) (childNodes par))
                     | None \<Rightarrow> False))
       (descendantOrSelf doc) = l # rest" by blast
    then have "l \<in> set (filter (\<lambda>r. elementChain doc [''clear'', ''packageSources'', ''configuration''] (fst r)
                 \<and> (case nodeAt doc (butlast (fst r)) of
                       Some par \<Rightarrow> list_all (\<lambda>n. \<not> nameTest ''clear'' n)
                                    (drop (Suc (last (fst r))) (childNodes par))
                     | None \<Rightarrow> False))
       (descendantOrSelf doc))" by simp
    then have mem: "l \<in> set (descendantOrSelf doc)"
      and chain: "elementChain doc [''clear'', ''packageSources'', ''configuration''] (fst l)"
      by simp_all
    from mem have l: "nodeAt doc (fst l) = Some (snd l)" by (simp add: in_descendantOrSelf)
    from chain have ne: "fst l \<noteq> []" by simp
    from nodeAt_child[OF l ne] c bl have "last (fst l) < length (childNodes (snd (packageSourcesNode a)))"
      by simp
    with k show ?thesis by simp
  qed
qed

lemma merge_with_anchors:
  assumes anchors: "locateAnchors doc = Inr a" and names: "distinct (map name sources)"
  shows "mergeIntoDocument p sources doc =
     (case disableReplaced p (\<lambda>nm. find (\<lambda>s. name s = nm) sources)
             (drop (insertionPoint a) (childNodes (snd (packageSourcesNode a)))) of
        (e, rest) \<Rightarrow>
          ((case e of Some err \<Rightarrow> Inl err | None \<Rightarrow> Inr ()),
           updateAt (setChildNodes
               (take (insertionPoint a) (childNodes (snd (packageSourcesNode a)))
                  @ insertedNodes (referenceIndentation a) sources @ rest))
             (fst (packageSourcesNode a)) doc))"
proof -
  let ?cs = "childNodes (snd (packageSourcesNode a))"
  let ?k = "insertionPoint a"
  let ?ins = "insertedNodes (referenceIndentation a) sources"
  have k: "?k \<le> length ?cs" by (rule locateAnchors_valid(2)[OF anchors])
  have m: "(\<lambda>k. case find (\<lambda>s. name s = k) sources of Some s \<Rightarrow> Some s | None \<Rightarrow> Map.empty k)
         = (\<lambda>nm. find (\<lambda>s. name s = nm) sources)"
    by (auto split: option.splits)
  have added: "addSources (referenceIndentation a) sources (Map.empty, ?cs, ?k) =
           (None, (\<lambda>nm. find (\<lambda>s. name s = nm) sources,
                   take ?k ?cs @ ?ins @ drop ?k ?cs, ?k + 2 * length sources))"
    using addSources_ok[OF names _ k, of Map.empty "referenceIndentation a"] unfolding m by simp
  have tk: "take (?k + 2 * length sources) (take ?k ?cs @ ?ins @ drop ?k ?cs) = take ?k ?cs @ ?ins"
    using k by simp
  have dr: "drop (?k + 2 * length sources) (take ?k ?cs @ ?ins @ drop ?k ?cs) = drop ?k ?cs"
    using k by simp
  show ?thesis
    unfolding mergeIntoDocument_def
    by (simp add: anchors added tk dr del: take_append drop_append)
qed

lemma merge_duplicate:
  assumes anchors: "locateAnchors doc = Inr a"
    and "distinct (map name pre)" and "name s \<in> set (map name pre)"
  shows "mergeIntoDocument p (pre @ s # rest) doc =
     (Inl (DuplicateSourceName (name s)),
      updateAt (setChildNodes
          (take (insertionPoint a) (childNodes (snd (packageSourcesNode a)))
             @ insertedNodes (referenceIndentation a) pre
             @ drop (insertionPoint a) (childNodes (snd (packageSourcesNode a)))))
        (fst (packageSourcesNode a)) doc)"
  unfolding mergeIntoDocument_def
  using addSources_duplicate[OF assms(2,3) locateAnchors_valid(2)[OF anchors],
      of "referenceIndentation a" rest]
  by (simp add: anchors)

lemma single_container:
  assumes single: "selectChain [''packageSources'', ''configuration''] doc = [(cp, c)]"
  shows "nodeAt doc cp = Some c"
    and "elementChain doc [''packageSources'', ''configuration''] cp"
    and "\<And>q. elementChain doc [''packageSources'', ''configuration''] q \<Longrightarrow> q = cp"
proof -
  have mem: "(cp, c) \<in> set (selectChain [''packageSources'', ''configuration''] doc)"
    by (simp add: single)
  then show c: "nodeAt doc cp = Some c"
    and ch: "elementChain doc [''packageSources'', ''configuration''] cp"
    by (auto simp: selectChain_def in_descendantOrSelf)
  fix q
  assume q: "elementChain doc [''packageSources'', ''configuration''] q"
  then obtain n where "nodeAt doc q = Some n" by (auto split: option.splits)
  then have "(q, n) \<in> set (descendantOrSelf doc)" by (simp add: in_descendantOrSelf)
  with q have "(q, n) \<in> set (selectChain [''packageSources'', ''configuration''] doc)"
    by (simp add: selectChain_def)
  then show "q = cp" by (simp add: single)
qed

lemma single_container_indent:
  assumes single: "selectChain [''packageSources'', ''configuration''] doc = [(cp, c)]"
  shows "packageSourcesIndentSelector doc =
           XNodeSet (map (\<lambda>i. (cp @ [i], childNodes c ! i))
                       (filter (\<lambda>i. textTest (childNodes c ! i)) [0..<length (childNodes c)]))"
proof -
  note sc = single_container[OF single]
  have "filter (\<lambda>r. textTest (snd r) \<and> fst r \<noteq> []
                 \<and> elementChain doc [''packageSources'', ''configuration''] (butlast (fst r)))
          (descendantOrSelf doc)
      = filter (\<lambda>r. fst r \<noteq> [] \<and> butlast (fst r) = cp \<and> textTest (snd r)) (descendantOrSelf doc)"
    by (rule filter_cong[OF refl]) (use sc(2,3) in blast)
  also have "\<dots> = map (\<lambda>i. (cp @ [i], childNodes c ! i))
                       (filter (\<lambda>i. textTest (childNodes c ! i)) [0..<length (childNodes c)])"
    by (rule filter_children_refs[OF sc(1), where Q = "\<lambda>i n. textTest n"])
  finally show ?thesis by (simp add: packageSourcesIndentSelector_def)
qed

lemma single_container_clear:
  assumes single: "selectChain [''packageSources'', ''configuration''] doc = [(cp, c)]"
  shows "lastClearSourceSelector doc =
           XNodeSet (map (\<lambda>i. (cp @ [i], childNodes c ! i))
             (filter (\<lambda>i. nameTest ''clear'' (childNodes c ! i)
                        \<and> list_all (\<lambda>n. \<not> nameTest ''clear'' n) (drop (Suc i) (childNodes c)))
                [0..<length (childNodes c)]))"
proof -
  note sc = single_container[OF single]
  have "filter (\<lambda>r. elementChain doc [''clear'', ''packageSources'', ''configuration''] (fst r)
                 \<and> (case nodeAt doc (butlast (fst r)) of
                       Some par \<Rightarrow> list_all (\<lambda>n. \<not> nameTest ''clear'' n)
                                    (drop (Suc (last (fst r))) (childNodes par))
                     | None \<Rightarrow> False))
          (descendantOrSelf doc)
      = filter (\<lambda>r. fst r \<noteq> [] \<and> butlast (fst r) = cp
                 \<and> (nameTest ''clear'' (snd r)
                    \<and> list_all (\<lambda>n. \<not> nameTest ''clear'' n) (drop (Suc (last (fst r))) (childNodes c))))
          (descendantOrSelf doc)"
  proof (rule filter_cong[OF refl])
    fix r assume "r \<in> set (descendantOrSelf doc)"
    then have r: "nodeAt doc (fst r) = Some (snd r)" by (simp add: in_descendantOrSelf)
    show "(elementChain doc [''clear'', ''packageSources'', ''configuration''] (fst r)
                 \<and> (case nodeAt doc (butlast (fst r)) of
                       Some par \<Rightarrow> list_all (\<lambda>n. \<not> nameTest ''clear'' n)
                                    (drop (Suc (last (fst r))) (childNodes par))
                     | None \<Rightarrow> False))
        = (fst r \<noteq> [] \<and> butlast (fst r) = cp
                 \<and> (nameTest ''clear'' (snd r)
                    \<and> list_all (\<lambda>n. \<not> nameTest ''clear'' n) (drop (Suc (last (fst r))) (childNodes c))))"
    proof (cases "fst r \<noteq> [] \<and> butlast (fst r) = cp")
      case True
      with sc(1,2) r show ?thesis by simp
    next
      case False
      with sc(3) show ?thesis by auto
    qed
  qed
  also have "\<dots> = map (\<lambda>i. (cp @ [i], childNodes c ! i))
             (filter (\<lambda>i. nameTest ''clear'' (childNodes c ! i)
                        \<and> list_all (\<lambda>n. \<not> nameTest ''clear'' n) (drop (Suc i) (childNodes c)))
                [0..<length (childNodes c)])"
    by (rule filter_children_refs[OF sc(1),
          where Q = "\<lambda>i n. nameTest ''clear'' n
                      \<and> list_all (\<lambda>n. \<not> nameTest ''clear'' n) (drop (Suc i) (childNodes c))"])
  finally show ?thesis by (simp add: lastClearSourceSelector_def)
qed

lemma first_repeat_by:
  "\<not> distinct (map f xs) \<Longrightarrow>
     \<exists>pre x rest. xs = pre @ x # rest \<and> distinct (map f pre) \<and> f x \<in> set (map f pre)"
proof (induction xs rule: rev_induct)
  case Nil
  then show ?case by simp
next
  case (snoc y ys)
  show ?case
  proof (cases "distinct (map f ys)")
    case True
    with snoc.prems have "f y \<in> set (map f ys)" by simp
    with True have "ys @ [y] = ys @ y # [] \<and> distinct (map f ys) \<and> f y \<in> set (map f ys)" by simp
    then show ?thesis by blast
  next
    case False
    from snoc.IH[OF False] obtain pre x rest where
      "ys = pre @ x # rest" "distinct (map f pre)" "f x \<in> set (map f pre)" by blast
    then have "ys @ [y] = pre @ x # (rest @ [y]) \<and> distinct (map f pre) \<and> f x \<in> set (map f pre)"
      by simp
    then show ?thesis by blast
  qed
qed

lemma cloneNode_text: "nodeType n = 3 \<Longrightarrow> cloneNode n = n"
  by (cases n) simp_all

lemma insertedNodes_text:
  "nodeType indent = 3 \<Longrightarrow>
     insertedNodes indent sources = concat (map (\<lambda>s. [indent, newSourceElement s]) sources)"
  by (simp add: insertedNodes_def cloneNode_text)

lemma locateAnchors_single:
  assumes single: "packageSourcesSelector doc = XNodeSet [(cp, c)]"
    and anchors: "locateAnchors doc = Inr a"
  shows "packageSourcesNode a = (cp, c)"
    and "referenceIndentation a =
           (case find textTest (childNodes c) of Some t \<Rightarrow> t | None \<Rightarrow> Text (js ''\<newline>    ''))"
    and "nodeType (referenceIndentation a) = 3"
    and "list_all (\<lambda>n. \<not> nameTest ''clear'' n) (drop (insertionPoint a) (childNodes c))"
    and "insertionPoint a = 0 \<or> nameTest ''clear'' (childNodes c ! (insertionPoint a - 1))"
proof -
  let ?cs = "childNodes c"
  let ?isClear = "\<lambda>n. nameTest ''clear'' n"
  from single have sel: "selectChain [''packageSources'', ''configuration''] doc = [(cp, c)]"
    by (simp add: packageSourcesSelector_def)
  from locateAnchors_cases[OF anchors] obtain indent lc where
    1: "select1Element (packageSourcesSelector doc) = Inr (Some (packageSourcesNode a))"
    and 2: "select1Text (packageSourcesIndentSelector doc) = Inr indent"
    and 3: "select1Element (lastClearSourceSelector doc) = Inr lc"
    and ind: "referenceIndentation a = (case indent of Some t \<Rightarrow> snd t | None \<Rightarrow> Text (js ''\<newline>    ''))"
    and ip: "(case lc of
          None \<Rightarrow> insertionPoint a = 0
        | Some l \<Rightarrow> butlast (fst l) = fst (packageSourcesNode a) \<and> insertionPoint a = Suc (last (fst l)))"
    by blast
  from checkedSelect1_Some(1)[OF 1[unfolded select1Element_def single]]
  show "packageSourcesNode a = (cp, c)" by simp
  let ?texts = "map (\<lambda>i. (cp @ [i], ?cs ! i)) (filter (\<lambda>i. textTest (?cs ! i)) [0..<length ?cs])"
  have texts: "map snd ?texts = filter textTest ?cs"
    using nths_filter[of ?cs textTest] by (simp add: comp_def)
  have sel2: "checkedSelect1 (XNodeSet ?texts) (Some 3) = Inr indent"
    using 2 by (simp add: select1Text_def single_container_indent[OF sel])
  show "referenceIndentation a =
           (case find textTest ?cs of Some t \<Rightarrow> t | None \<Rightarrow> Text (js ''\<newline>    ''))"
    and "nodeType (referenceIndentation a) = 3"
  proof -
    show "referenceIndentation a =
           (case find textTest ?cs of Some t \<Rightarrow> t | None \<Rightarrow> Text (js ''\<newline>    ''))"
    proof (cases indent)
      case None
      with checkedSelect1_None[OF sel2[unfolded None]] texts have "filter textTest ?cs = []" by simp
      with None ind show ?thesis by (simp add: find_filter)
    next
      case (Some t)
      from checkedSelect1_Some(1)[OF sel2[unfolded Some]] obtain rest where "?texts = t # rest" by (elim exE)
      with texts have "filter textTest ?cs = snd t # map snd rest" by (metis list.simps(9))
      with Some ind show ?thesis by (simp add: find_filter)
    qed
    show "nodeType (referenceIndentation a) = 3"
    proof (cases indent)
      case None
      with ind show ?thesis by simp
    next
      case (Some t)
      from checkedSelect1_Some(2)[OF sel2[unfolded Some]] Some ind show ?thesis by simp
    qed
  qed
  let ?last = "\<lambda>i. ?isClear (?cs ! i) \<and> list_all (\<lambda>n. \<not> ?isClear n) (drop (Suc i) ?cs)"
  let ?clears = "map (\<lambda>i. (cp @ [i], ?cs ! i)) (filter ?last [0..<length ?cs])"
  have sel3: "checkedSelect1 (XNodeSet ?clears) (Some 1) = Inr lc"
    using 3 by (simp add: select1Element_def single_container_clear[OF sel])
  show "list_all (\<lambda>n. \<not> ?isClear n) (drop (insertionPoint a) ?cs)"
    and "insertionPoint a = 0 \<or> ?isClear (?cs ! (insertionPoint a - 1))"
  proof -
    have "list_all (\<lambda>n. \<not> ?isClear n) (drop (insertionPoint a) ?cs)
        \<and> (insertionPoint a = 0 \<or> ?isClear (?cs ! (insertionPoint a - 1)))"
    proof (cases lc)
      case None
      from checkedSelect1_None[OF sel3[unfolded None]] have none: "filter ?last [0..<length ?cs] = []"
        by simp
      have "\<not> list_ex ?isClear ?cs"
      proof
        assume "list_ex ?isClear ?cs"
        from last_satisfying[OF this] obtain i where "i < length ?cs" "?last i" by blast
        then have "i \<in> set (filter ?last [0..<length ?cs])" by simp
        with none show False by simp
      qed
      then have "list_all (\<lambda>n. \<not> ?isClear n) ?cs"
        by (simp add: list_all_iff list_ex_iff)
      with None ip show ?thesis by simp
    next
      case (Some l)
      from checkedSelect1_Some(1)[OF sel3[unfolded Some]] obtain rest where "?clears = l # rest" by (elim exE)
      then have "l \<in> set ?clears" by simp
      then obtain i where i: "i < length ?cs" "?last i" and l: "l = (cp @ [i], ?cs ! i)" by auto
      from Some ip l have "insertionPoint a = Suc i" by simp
      with i show ?thesis by simp
    qed
    then show "list_all (\<lambda>n. \<not> ?isClear n) (drop (insertionPoint a) ?cs)"
      and "insertionPoint a = 0 \<or> ?isClear (?cs ! (insertionPoint a - 1))" by simp_all
  qed
qed

lemma disableReplaced_length: "length (snd (disableReplaced p m xs)) = length xs"
proof (induction xs)
  case Nil
  then show ?case by simp
next
  case (Cons n xs)
  show ?case
  proof (cases "passable m n")
    case True
    obtain e rest where r: "disableReplaced p m xs = (e, rest)"
      by (cases "disableReplaced p m xs") auto
    with Cons.IH show ?thesis
      unfolding disableReplaced_pass[OF True] by simp
  next
    case False
    from disableReplaced_fail[OF False] obtain e where
      "disableReplaced p m (n # xs) = (Some e, n # xs)" by blast
    then show ?thesis by simp
  qed
qed

lemma merge_ok_anchors:
  assumes "mergeIntoDocument p sources doc = (Inr (), doc')"
  shows "\<exists>a. locateAnchors doc = Inr a" and "distinct (map name sources)"
proof -
  from assms obtain a where a: "locateAnchors doc = Inr a"
    by (cases "locateAnchors doc") (auto simp: mergeIntoDocument_def)
  then show "\<exists>a. locateAnchors doc = Inr a" by blast
  show "distinct (map name sources)"
  proof (rule ccontr)
    assume "\<not> distinct (map name sources)"
    from first_repeat_by[OF this] obtain pre s rest where
      "sources = pre @ s # rest" "distinct (map name pre)" "name s \<in> set (map name pre)" by blast
    with merge_duplicate[OF a this(2,3), of p rest] assms show False by simp
  qed
qed

section \<open>Where the new sources go\<close>



section \<open>Collisions with existing sources\<close>

lemma find_by_name:
  assumes "distinct (map name sources)" and "s \<in> set sources"
  shows "find (\<lambda>t. name t = name s) sources = Some s"
  using assms
proof (induction sources)
  case Nil
  then show ?case by simp
next
  case (Cons t ts)
  show ?case
  proof (cases "t = s")
    case True
    then show ?thesis by simp
  next
    case False
    with Cons.prems have s: "s \<in> set ts" by simp
    with Cons.prems(1) have "name t \<noteq> name s"
      by (metis distinct.simps(2) imageI list.simps(9) list.set_map)
    with Cons.IH s Cons.prems(1) show ?thesis by simp
  qed
qed

lemma non_element_passable:
  assumes "nodeType n \<noteq> 1"
  shows "passable m n" and "disable p m n = n"
  using assms by (simp_all add: passable_def disable_def replacedBy_def)

lemma non_elements_passable:
  assumes "list_all (\<lambda>x. nodeType x \<noteq> 1) xs"
  shows "list_all (passable m) xs" and "map (disable p m) xs = xs"
  using assms by (induction xs) (simp_all add: non_element_passable)




section \<open>Siblings that are not source entries\<close>

text \<open>
  Claim C8, as the code has it. The walk skips every sibling that is not an element (the
  text nodes of the indentation, comments): when all siblings from the insertion point on
  are such nodes the merge succeeds and leaves them as they are. The first sibling that
  is an element and whose node name is not exactly \<open>add\<close> makes the merge fail with the
  malformed-container error, provided the walk got past the siblings before it.
\<close>

theorem merge_unexpected_element:
  assumes anchors: "locateAnchors doc = Inr a"
    and names: "distinct (map name sources)"
  shows "(\<forall>pre n rest.
            drop (insertionPoint a) (childNodes (snd (packageSourcesNode a))) = pre @ n # rest
            \<and> list_all (passable (\<lambda>nm. find (\<lambda>s. name s = nm) sources)) pre
            \<and> nodeType n = 1 \<and> nodeName n \<noteq> js ''add''
            \<longrightarrow> fst (mergeIntoDocument p sources doc) = Inl (MalformedContainer (nodeName n)))
       \<and> (list_all (\<lambda>x. nodeType x \<noteq> 1)
             (drop (insertionPoint a) (childNodes (snd (packageSourcesNode a))))
            \<longrightarrow> mergeIntoDocument p sources doc =
                  (Inr (), updateAt (setChildNodes
                     (take (insertionPoint a) (childNodes (snd (packageSourcesNode a)))
                      @ insertedNodes (referenceIndentation a) sources
                      @ drop (insertionPoint a) (childNodes (snd (packageSourcesNode a)))))
                    (fst (packageSourcesNode a)) doc))"
proof (intro conjI allI impI)
  fix pre n rest
  let ?m = "\<lambda>nm. find (\<lambda>s. name s = nm) sources"
  assume h: "drop (insertionPoint a) (childNodes (snd (packageSourcesNode a))) = pre @ n # rest
            \<and> list_all (passable ?m) pre \<and> nodeType n = 1 \<and> nodeName n \<noteq> js ''add''"
  then have post: "drop (insertionPoint a) (childNodes (snd (packageSourcesNode a))) = pre @ n # rest"
    and pre: "list_all (passable ?m) pre" and n: "nodeType n = 1" "nodeName n \<noteq> js ''add''"
    by simp_all
  have step: "disableReplaced p ?m (n # rest) = (Some (MalformedContainer (nodeName n)), n # rest)"
    using n by simp
  show "fst (mergeIntoDocument p sources doc) = Inl (MalformedContainer (nodeName n))"
    unfolding merge_with_anchors[OF anchors names] post disableReplaced_append[OF pre] step
    by simp
next
  let ?m = "\<lambda>nm. find (\<lambda>s. name s = nm) sources"
  let ?post = "drop (insertionPoint a) (childNodes (snd (packageSourcesNode a)))"
  assume "list_all (\<lambda>x. nodeType x \<noteq> 1) ?post"
  note ne = non_elements_passable[OF this]
  show "mergeIntoDocument p sources doc =
                  (Inr (), updateAt (setChildNodes
                     (take (insertionPoint a) (childNodes (snd (packageSourcesNode a)))
                      @ insertedNodes (referenceIndentation a) sources @ ?post))
                    (fst (packageSourcesNode a)) doc)"
    unfolding merge_with_anchors[OF anchors names] disableReplaced_all_pass[OF ne(1)] ne(2)
    by simp
qed

theorem merge_unexpected_element_witness:
  "fst (mergeIntoDocument (sampleHost [LF]) [sourceA]
         (Document [Element (js ''configuration'') []
            [Element (js ''packageSources'') []
               [Text (js ''\<newline>''), Element (js ''Add'') [([], js ''key'', js ''X'')] []]]] None))
     = Inl (MalformedContainer (js ''Add''))
   \<and> mergeIntoDocument (sampleHost [LF]) [sourceA]
         (Document [Element (js ''configuration'') []
            [Element (js ''packageSources'') [] [Text (js ''\<newline>''), Comment (js ''c'')]]] None)
     = (Inr (), Document [Element (js ''configuration'') []
            [Element (js ''packageSources'') []
               [Text (js ''\<newline>''), newSourceElement sourceA,
                Text (js ''\<newline>''), Comment (js ''c'')]]] None)"
proof -
  let ?bad = "Element (js ''Add'') [([], js ''key'', js ''X'')] []"
  let ?c1 = "Element (js ''packageSources'') [] [Text (js ''\<newline>''), ?bad]"
  let ?d1 = "Document [Element (js ''configuration'') [] [?c1]] None"
  let ?a1 = "\<lparr> packageSourcesNode = ([0, 0], ?c1),
            referenceIndentation = Text (js ''\<newline>''), insertionPoint = 0 \<rparr>"
  let ?c2 = "Element (js ''packageSources'') [] [Text (js ''\<newline>''), Comment (js ''c'')]"
  let ?d2 = "Document [Element (js ''configuration'') [] [?c2]] None"
  let ?a2 = "\<lparr> packageSourcesNode = ([0, 0], ?c2),
            referenceIndentation = Text (js ''\<newline>''), insertionPoint = 0 \<rparr>"
  have a1: "locateAnchors ?d1 = Inr ?a1" and a2: "locateAnchors ?d2 = Inr ?a2" by code_simp+
  have names: "distinct (map name [sourceA])" by simp
  have h1: "drop (insertionPoint ?a1) (childNodes (snd (packageSourcesNode ?a1)))
              = [Text (js ''\<newline>'')] @ ?bad # []
          \<and> list_all (passable (\<lambda>nm. find (\<lambda>s. name s = nm) [sourceA])) [Text (js ''\<newline>'')]
          \<and> nodeType ?bad = 1 \<and> nodeName ?bad \<noteq> js ''add''"
    by code_simp
  have h2: "list_all (\<lambda>x. nodeType x \<noteq> 1)
             (drop (insertionPoint ?a2) (childNodes (snd (packageSourcesNode ?a2))))"
    by code_simp
  from merge_unexpected_element[OF a1 names, of "sampleHost [LF]"] h1
  have first: "fst (mergeIntoDocument (sampleHost [LF]) [sourceA] ?d1)
                 = Inl (MalformedContainer (nodeName ?bad))"
    by blast
  from merge_unexpected_element[OF a2 names, of "sampleHost [LF]"] h2
  have second: "mergeIntoDocument (sampleHost [LF]) [sourceA] ?d2 =
                  (Inr (), updateAt (setChildNodes
                     (take (insertionPoint ?a2) (childNodes (snd (packageSourcesNode ?a2)))
                      @ insertedNodes (referenceIndentation ?a2) [sourceA]
                      @ drop (insertionPoint ?a2) (childNodes (snd (packageSourcesNode ?a2)))))
                    (fst (packageSourcesNode ?a2)) ?d2)"
    by blast
  from first second show ?thesis by simp
qed

text \<open>
  Claim C8 as stated fails: the siblings from the insertion point on include text nodes,
  which are not \<open>add\<close> entries, and the merge succeeds all the same.
\<close>

theorem merge_skips_text_counterexample:
  "drop 2 sampleSourcesChildren =
     [Text (js ''\<newline>    ''),
      Element (js ''add'') [([], js ''key'', js ''X''), ([], js ''value'', js ''http://x'')] [],
      Text (js ''\<newline>  '')]
   \<and> mergeIntoDocument (sampleHost [LF]) [sourceA] sampleConfig =
       (Inr (), updateAt (setChildNodes
          ([Text (js ''\<newline>    ''), Element (js ''clear'') [] [],
            Text (js ''\<newline>    ''), newSourceElement sourceA,
            Text (js ''\<newline>    ''),
            Element (js ''add'') [([], js ''key'', js ''X''), ([], js ''value'', js ''http://x'')] [],
            Text (js ''\<newline>  '')])) [0, 1] sampleConfig)"
  by code_simp

section \<open>Repeated source names\<close>

text \<open>
  Claim C6, as the code has it. Let the file parse and the anchors be located. When two
  input sources share a name, the merge fails with the duplicate-source-name error for the
  first name that repeats, and the file keeps its content. The check runs inside the loop
  that inserts the sources, so the document in memory has by then received every source
  that comes before the repeated one.
\<close>

theorem merge_duplicate_names:
  assumes parsed: "parseXml p content = Inr doc"
    and anchors: "locateAnchors doc = Inr a"
    and dup: "\<not> distinct (map name sources)"
  shows "\<exists>pre s rest.
      sources = pre @ s # rest \<and> distinct (map name pre) \<and> name s \<in> set (map name pre)
    \<and> addPackageSources p sources content = (Inl (DuplicateSourceName (name s)), content)
    \<and> mergeIntoDocument p sources doc =
        (Inl (DuplicateSourceName (name s)),
         updateAt (setChildNodes
             (take (insertionPoint a) (childNodes (snd (packageSourcesNode a)))
                @ insertedNodes (referenceIndentation a) pre
                @ drop (insertionPoint a) (childNodes (snd (packageSourcesNode a)))))
           (fst (packageSourcesNode a)) doc)"
proof -
  from first_repeat_by[OF dup] obtain pre s rest where
    dec: "sources = pre @ s # rest" "distinct (map name pre)" "name s \<in> set (map name pre)"
    by blast
  note m = merge_duplicate[OF anchors dec(2,3), of p rest]
  have "addPackageSources p sources content = (Inl (DuplicateSourceName (name s)), content)"
    unfolding addPackageSources_def dec(1) parsed using m by simp
  with dec m show ?thesis by blast
qed

theorem merge_duplicate_names_witness:
  "parseXml (sampleHost [LF]) sampleConfigText = Inr sampleConfig
   \<and> \<not> distinct (map name [sourceA, sourceA])
   \<and> (\<exists>pre s rest.
      [sourceA, sourceA] = pre @ s # rest \<and> distinct (map name pre) \<and> name s \<in> set (map name pre)
    \<and> addPackageSources (sampleHost [LF]) [sourceA, sourceA] sampleConfigText
         = (Inl (DuplicateSourceName (name s)), sampleConfigText)
    \<and> mergeIntoDocument (sampleHost [LF]) [sourceA, sourceA] sampleConfig =
        (Inl (DuplicateSourceName (name s)),
         updateAt (setChildNodes
             (take 2 sampleSourcesChildren @ insertedNodes (Text (js ''\<newline>    '')) pre
                @ drop 2 sampleSourcesChildren))
           [0, 1] sampleConfig))"
proof -
  let ?a = "\<lparr> packageSourcesNode = ([0, 1], Element (js ''packageSources'') [] sampleSourcesChildren),
           referenceIndentation = Text (js ''\<newline>    ''), insertionPoint = 2 \<rparr>"
  have parsed: "parseXml (sampleHost [LF]) sampleConfigText = Inr sampleConfig" by code_simp
  have anchors: "locateAnchors sampleConfig = Inr ?a" by code_simp
  have dup: "\<not> distinct (map name [sourceA, sourceA])" by simp
  from merge_duplicate_names[OF parsed anchors dup] parsed dup show ?thesis by simp
qed

text \<open>
  Claim C6 as stated fails: the error is not raised before any mutation. With the same
  source given twice, the document in memory holds the first copy when the error is
  raised, and so differs from the parsed one.
\<close>

theorem merge_duplicate_mutates_counterexample:
  "mergeIntoDocument (sampleHost [LF]) [sourceA, sourceA] sampleConfig =
     (Inl (DuplicateSourceName (js ''A'')),
      updateAt (setChildNodes
          ([Text (js ''\<newline>    ''), Element (js ''clear'') [] [],
            Text (js ''\<newline>    ''), newSourceElement sourceA,
            Text (js ''\<newline>    ''),
            Element (js ''add'') [([], js ''key'', js ''X''), ([], js ''value'', js ''http://x'')] [],
            Text (js ''\<newline>  '')])) [0, 1] sampleConfig)
   \<and> updateAt (setChildNodes
          ([Text (js ''\<newline>    ''), Element (js ''clear'') [] [],
            Text (js ''\<newline>    ''), newSourceElement sourceA,
            Text (js ''\<newline>    ''),
            Element (js ''add'') [([], js ''key'', js ''X''), ([], js ''value'', js ''http://x'')] [],
            Text (js ''\<newline>  '')])) [0, 1] sampleConfig \<noteq> sampleConfig"
  by code_simp

section \<open>Failures never reach the file\<close>

lemma addPackageSources_error_keeps_file:
  "addPackageSources p sources content = (Inl e, content') \<Longrightarrow> content' = content"
  by (auto simp: addPackageSources_def split: if_splits sum.splits prod.splits)

lemma injectPackages_error_keeps_file:
  "injectPackages p nugetPackages dirs content = (Inl e, content', dirs', fx) \<Longrightarrow> content' = content"
  by (auto simp: injectPackages_def split: sum.splits prod.splits)



section \<open>How an existing package entry is found\<close>

text \<open>
  Claim C3, evaluated on the code. The manifest has the entry \<open>Foo\<close> \<open>1.0.0\<close>; the package
  to inject has the id \<open>foo\<close>. The query compares the \<open>id\<close> attribute with the given id
  as strings, so the existing entry is not found: the call succeeds, the old entry stays,
  a new entry \<open>foo\<close> \<open>2.0.0\<close> is inserted beside it, and nothing is asked of the file
  system.
\<close>

theorem upsert_id_case_sensitive:
  "(case injectIntoDocument (sampleHost [LF]) [\<lparr> id' = js ''foo'', version = js ''2.0.0'' \<rparr>] []
            sampleManifest of
      (r, st) \<Rightarrow> (r, map_option childNodes (nodeAt (bonsaiConfig st) [0, 1]), effects st))
   = (Inr (),
      Some [Text (js ''\<newline>    ''), record0 ''Package'' [(''id'', ''Foo''), (''version'', ''1.0.0'')],
            Text (js ''\<newline>    ''), record0 ''Package'' [(''id'', ''Bar''), (''version'', ''3.0.0'')],
            Text (js ''\<newline>    ''), record0 ''Package'' [(''id'', ''foo''), (''version'', ''2.0.0'')],
            Text (js ''\<newline>  '')],
      [])"
  by code_simp

section \<open>Removing a node: what becomes of the other positions\<close>

text \<open>
  The tree after \<open>smartRemove\<close> is the tree before it with one or two children of one
  node taken out. A position \<open>x\<close> of the new tree holds what \<open>unadjust rm x\<close> held in the old
  one: the same node, or, above the removal, a node with the same name and attributes.
\<close>

lemma nodeAt_updateAt_cases:
  assumes "nodeAt doc q = Some parent"
  shows "nodeAt (updateAt f q doc) y =
     (if prefix y q then map_option (updateAt f (drop (length y) q)) (nodeAt doc y)
      else if prefix q y then nodeAt (f parent) (drop (length q) y)
      else nodeAt doc y)"
  using assms
proof (induction q arbitrary: doc y)
  case Nil
  then show ?case by (cases y) simp_all
next
  case (Cons i q)
  let ?cs = "childNodes doc"
  from Cons.prems have i: "i < length ?cs" and sub: "nodeAt (?cs ! i) q = Some parent"
    by (auto split: if_splits)
  show ?case
  proof (cases y)
    case Nil
    then show ?thesis by simp
  next
    case (Cons j y')
    show ?thesis
    proof (cases "j = i")
      case True
      with Cons Cons.IH[OF sub, of y'] i show ?thesis
        by (simp add: childNodes_updateAt del: updateAt.simps)
    next
      case False
      with Cons i show ?thesis
        by (simp add: childNodes_updateAt del: updateAt.simps)
    qed
  qed
qed

lemma shallow_setChildNodes: "shallow (setChildNodes cs n) = shallow n"
  by (cases n) (simp_all add: shallow_def)

lemma shallow_updateAt_setChildNodes: "shallow (updateAt (setChildNodes cs) q n) = shallow n"
  by (cases q; cases n) (simp_all add: shallow_def)

lemma childNodes_setChildNodes:
  "childNodes n \<noteq> [] \<Longrightarrow> childNodes (setChildNodes cs n) = cs"
  by (cases n) simp_all

lemma smartRemove_cases:
  assumes "smartRemove p doc = Inr (doc', rm)"
  obtains parent lo where "p \<noteq> []" and "nodeAt doc (butlast p) = Some parent"
    and "last p < length (childNodes parent)"
    and "lo = last p \<or> (Suc lo = last p \<and> nodeType (childNodes parent ! lo) = 3)"
    and "rm = (butlast p, lo, Suc (last p) - lo)"
    and "doc' = updateAt (setChildNodes
            (take lo (childNodes parent) @ drop (Suc (last p)) (childNodes parent))) (butlast p) doc"
proof -
  from assms have ne: "p \<noteq> []" by (auto simp: smartRemove_def split: if_splits)
  from assms ne obtain parent where par: "nodeAt doc (butlast p) = Some parent"
    by (auto simp: smartRemove_def split: option.splits)
  from assms ne par have len: "last p < length (childNodes parent)"
    by (auto simp: smartRemove_def split: if_splits)
  let ?cs = "childNodes parent"
  let ?t = "0 < last p \<and> nodeType (?cs ! (last p - 1)) = 3"
  let ?lo = "if ?t then last p - 1 else last p"
  from assms ne par len have
    "rm = (butlast p, ?lo, Suc (last p) - ?lo)"
    "doc' = updateAt (setChildNodes (take ?lo ?cs @ drop (Suc (last p)) ?cs)) (butlast p) doc"
    by (auto simp: smartRemove_def Let_def)
  moreover have "?lo = last p \<or> (Suc ?lo = last p \<and> nodeType (?cs ! ?lo) = 3)"
    by auto
  ultimately show ?thesis using that[OF ne par len] by blast
qed

lemma nodeAt_after_remove:
  assumes rem: "smartRemove p doc = Inr (doc', rm)"
  shows "map_option shallow (nodeAt doc' x) = map_option shallow (nodeAt doc (unadjust rm x))"
    and "\<not> prefix x (butlast p) \<Longrightarrow> nodeAt doc' x = nodeAt doc (unadjust rm x)"
proof -
  from rem obtain parent lo where ne: "p \<noteq> []"
    and par: "nodeAt doc (butlast p) = Some parent"
    and len: "last p < length (childNodes parent)"
    and lo: "lo = last p \<or> (Suc lo = last p \<and> nodeType (childNodes parent ! lo) = 3)"
    and rm: "rm = (butlast p, lo, Suc (last p) - lo)"
    and doc': "doc' = updateAt (setChildNodes
            (take lo (childNodes parent) @ drop (Suc (last p)) (childNodes parent))) (butlast p) doc"
    by (rule smartRemove_cases)
  let ?q = "butlast p" and ?i = "last p" and ?cs = "childNodes parent"
  let ?r = "Suc ?i - lo"
  let ?cs' = "take lo ?cs @ drop (Suc ?i) ?cs"
  let ?f = "setChildNodes ?cs'"
  from lo have lo_le: "lo \<le> ?i" by auto
  from len have cs_ne: "?cs \<noteq> []" by auto
  have kids: "childNodes (?f parent) = ?cs'" by (rule childNodes_setChildNodes[OF cs_ne])
  note at = nodeAt_updateAt_cases[OF par, of ?f x, folded doc']
  have main: "(prefix x ?q \<longrightarrow> unadjust rm x = x
                 \<and> nodeAt doc' x = map_option (updateAt ?f (drop (length x) ?q)) (nodeAt doc x))
            \<and> (\<not> prefix x ?q \<longrightarrow> nodeAt doc' x = nodeAt doc (unadjust rm x))"
  proof (intro conjI impI)
    assume px: "prefix x ?q"
    then have "length x \<le> length ?q" by (rule prefix_length_le)
    then show "unadjust rm x = x" by (simp add: unadjust_def rm)
    from px at show "nodeAt doc' x = map_option (updateAt ?f (drop (length x) ?q)) (nodeAt doc x)"
      by simp
  next
    assume npx: "\<not> prefix x ?q"
    show "nodeAt doc' x = nodeAt doc (unadjust rm x)"
    proof (cases "prefix ?q x")
      case False
      with npx at show ?thesis by (simp add: unadjust_def rm)
    next
      case True
      with npx obtain j rest where x: "x = ?q @ j # rest"
        by (metis append_Nil2 neq_Nil_conv prefix_def prefix_order.order_refl)
      have old: "nodeAt doc (?q @ k # rest)
                   = (if k < length ?cs then nodeAt (?cs ! k) rest else None)" for k
        by (simp add: nodeAt_append par)
      have new: "nodeAt doc' x = (if j < length ?cs' then nodeAt (?cs' ! j) rest else None)"
        using at npx True by (simp add: x kids)
      have un: "unadjust rm x = (if lo \<le> j then ?q @ (j + ?r) # rest else x)"
        by (simp add: unadjust_def rm x nth_append)
      show ?thesis
      proof (cases "j < lo")
        case True
        then have "j < length ?cs'" "?cs' ! j = ?cs ! j" "j < length ?cs"
          using lo_le len by (simp_all add: nth_append)
        with True show ?thesis unfolding new un by (simp add: x old)
      next
        case False
        then have ge: "lo \<le> j" by simp
        have tk: "length (take lo ?cs) = lo" using lo_le len by simp
        have "?cs' ! j = drop (Suc ?i) ?cs ! (j - lo)"
          using ge by (simp add: nth_append tk del: length_take)
        also have "\<dots> = ?cs ! (Suc ?i + (j - lo))"
          using len by (simp add: nth_drop)
        also have "Suc ?i + (j - lo) = j + ?r" using ge lo_le by simp
        finally have idx: "?cs' ! j = ?cs ! (j + ?r)" .
        have l: "j < length ?cs' \<longleftrightarrow> j + ?r < length ?cs"
          using ge lo_le len by (simp add: min_def) linarith
        from False show ?thesis unfolding new un using idx l by (simp add: old)
      qed
    qed
  qed
  from main show "\<not> prefix x (butlast p) \<Longrightarrow> nodeAt doc' x = nodeAt doc (unadjust rm x)" by blast
  show "map_option shallow (nodeAt doc' x) = map_option shallow (nodeAt doc (unadjust rm x))"
  proof (cases "prefix x ?q")
    case True
    with main show ?thesis
      by (cases "nodeAt doc x") (simp_all add: shallow_updateAt_setChildNodes)
  next
    case False
    with main show ?thesis by simp
  qed
qed

lemma prefix_decomp:
  assumes "prefix a x" and "length a < length x"
  shows "x = a @ x ! length a # drop (Suc (length a)) x"
proof -
  from assms(1) obtain zs where x: "x = a @ zs" by (auto simp: prefix_def)
  with assms(2) have "zs \<noteq> []" by auto
  then obtain z zs' where "zs = z # zs'" by (cases zs) auto
  with x show ?thesis by simp
qed

lemma adjust_unadjust: "adjust rm (unadjust rm x) = Some x"
proof -
  obtain q lo r where rm: "rm = (q, lo, r)" by (cases rm) auto
  show ?thesis
  proof (cases "prefix q x \<and> length q < length x \<and> lo \<le> x ! length q")
    case True
    define j rest where "j = x ! length q" and "rest = drop (Suc (length q)) x"
    from True prefix_decomp[of q x] have x: "x = q @ j # rest" by (simp add: j_def rest_def)
    from True have "lo \<le> j" by (simp add: j_def)
    then have un: "unadjust rm x = q @ (j + r) # rest"
      by (simp add: unadjust_def rm x nth_append)
    show ?thesis unfolding un using \<open>lo \<le> j\<close> by (simp add: adjust_def rm nth_append Let_def x)
  next
    case False
    have un: "unadjust rm x = x"
      unfolding unadjust_def rm prod.case by (rule if_not_P) (rule False)
    from False show ?thesis unfolding un by (auto simp: adjust_def rm Let_def)
  qed
qed

lemma unadjust_adjust:
  assumes "adjust rm x = Some x'"
  shows "unadjust rm x' = x"
proof -
  obtain q lo r where rm: "rm = (q, lo, r)" by (cases rm) auto
  show ?thesis
  proof (cases "prefix q x \<and> length q < length x")
    case False
    with assms have "x' = x" by (auto simp: adjust_def rm)
    with False show ?thesis by (auto simp: unadjust_def rm)
  next
    case True
    define j rest where "j = x ! length q" and "rest = drop (Suc (length q)) x"
    from True prefix_decomp[of q x] have x: "x = q @ j # rest" by (simp add: j_def rest_def)
    show ?thesis
    proof (cases "j < lo")
      case lt: True
      with assms have "x' = x" by (simp add: adjust_def rm Let_def x nth_append)
      with lt show ?thesis by (simp add: unadjust_def rm x nth_append)
    next
      case ge: False
      with assms have nd: "\<not> j < lo + r" and x': "x' = q @ (j - r) # rest"
        by (auto simp: adjust_def rm Let_def x nth_append split: if_splits)
      from nd have "lo \<le> j - r" "j - r + r = j" by simp_all
      then show ?thesis unfolding x' by (simp add: unadjust_def rm nth_append x)
    qed
  qed
qed

subsection \<open>Location paths after a removal\<close>

text \<open>
  A location path selects a position of the new tree exactly when it selected the
  corresponding position of the old tree.
\<close>

lemma unadjust_nil: "unadjust rm x = [] \<longleftrightarrow> x = []"
  by (cases rm) (auto simp: unadjust_def)

lemma unadjust_butlast:
  assumes "x \<noteq> []"
  shows "unadjust rm (butlast x) = butlast (unadjust rm x)"
proof -
  obtain q lo r where rm: "rm = (q, lo, r)" by (cases rm) auto
  let ?C = "\<lambda>y. prefix q y \<and> length q < length y \<and> lo \<le> y ! length q"
  show ?thesis
  proof (cases "?C x")
    case True
    define j rest where "j = x ! length q" and "rest = drop (Suc (length q)) x"
    from True prefix_decomp[of q x] have x: "x = q @ j # rest" by (simp add: j_def rest_def)
    from True have j: "lo \<le> j" by (simp add: j_def)
    show ?thesis
    proof (cases "rest = []")
      case True
      with j show ?thesis by (simp add: unadjust_def rm x nth_append butlast_append)
    next
      case False
      with j show ?thesis by (simp add: unadjust_def rm x nth_append butlast_append)
    qed
  next
    case False
    have un: "unadjust rm x = x"
      unfolding unadjust_def rm prod.case by (rule if_not_P) (rule False)
    have "\<not> ?C (butlast x)"
    proof
      assume c: "?C (butlast x)"
      then have "prefix q x" using assms
        by (metis append_butlast_last_id prefix_order.order_trans prefixI)
      moreover from c have "length q < length x" by (simp add: less_diff_conv)
      moreover from c have "x ! length q = butlast x ! length q" by (simp add: nth_butlast)
      ultimately show False using False c by simp
    qed
    then have "unadjust rm (butlast x) = butlast x"
      unfolding unadjust_def rm prod.case by (rule if_not_P)
    with un show ?thesis by simp
  qed
qed

lemma nameTest_shallow: "shallow n = shallow m \<Longrightarrow> nameTest nm n = nameTest nm m"
  by (simp add: shallow_def nameTest_def)

lemma elementChain_after_remove:
  assumes rem: "smartRemove p doc = Inr (doc', rm)"
  shows "elementChain doc' nms x = elementChain doc nms (unadjust rm x)"
proof (induction nms arbitrary: x)
  case Nil
  then show ?case by simp
next
  case (Cons nm nms)
  have test: "(case nodeAt doc' x of Some n \<Rightarrow> nameTest nm n | None \<Rightarrow> False)
            = (case nodeAt doc (unadjust rm x) of Some n \<Rightarrow> nameTest nm n | None \<Rightarrow> False)"
    using nodeAt_after_remove(1)[OF rem, of x]
    by (cases "nodeAt doc' x"; cases "nodeAt doc (unadjust rm x)") (auto dest: nameTest_shallow)
  show ?case
  proof (cases "x = []")
    case True
    then show ?thesis by (simp add: unadjust_nil)
  next
    case False
    with Cons.IH[of "butlast x"] test show ?thesis
      by (simp add: unadjust_nil unadjust_butlast)
  qed
qed

lemma in_selectChain:
  "(x, n) \<in> set (selectChain nms doc) \<longleftrightarrow> nodeAt doc x = Some n \<and> elementChain doc nms x"
  by (auto simp: selectChain_def in_descendantOrSelf)

lemma selection_after_remove:
  assumes rem: "smartRemove p doc = Inr (doc', rm)"
    and P: "\<And>n m. shallow n = shallow m \<Longrightarrow> P n = P m"
    and mem: "(x', n') \<in> set (filter (\<lambda>r. P (snd r)) (selectChain nms doc'))"
  shows "\<exists>n. (unadjust rm x', n) \<in> set (filter (\<lambda>r. P (snd r)) (selectChain nms doc))
            \<and> shallow n = shallow n'"
proof -
  from mem have at: "nodeAt doc' x' = Some n'" and ch: "elementChain doc' nms x'" and p: "P n'"
    by (simp_all add: in_selectChain)
  from nodeAt_after_remove(1)[OF rem, of x'] at obtain n where
    n: "nodeAt doc (unadjust rm x') = Some n" "shallow n = shallow n'"
    by (cases "nodeAt doc (unadjust rm x')") auto
  from ch have "elementChain doc nms (unadjust rm x')"
    by (simp add: elementChain_after_remove[OF rem])
  with n p P[OF n(2)] show ?thesis by (auto simp: in_selectChain)
qed

lemma selection_survives:
  assumes rem: "smartRemove p doc = Inr (doc', rm)"
    and P: "\<And>n m. shallow n = shallow m \<Longrightarrow> P n = P m"
    and mem: "(x, n) \<in> set (filter (\<lambda>r. P (snd r)) (selectChain nms doc))"
    and adj: "adjust rm x = Some x'"
  shows "\<exists>n'. (x', n') \<in> set (filter (\<lambda>r. P (snd r)) (selectChain nms doc'))
            \<and> shallow n' = shallow n \<and> (\<not> prefix x (butlast p) \<longrightarrow> n' = n)"
proof -
  note un = unadjust_adjust[OF adj]
  from mem have at: "nodeAt doc x = Some n" and ch: "elementChain doc nms x" and p: "P n"
    by (simp_all add: in_selectChain)
  from nodeAt_after_remove(1)[OF rem, of x'] at un obtain n' where
    n': "nodeAt doc' x' = Some n'" "shallow n' = shallow n"
    by (cases "nodeAt doc' x'") auto
  have exact: "n' = n" if "\<not> prefix x (butlast p)"
  proof -
    have "\<not> prefix x' (butlast p)"
    proof
      assume px: "prefix x' (butlast p)"
      from rem obtain lo where "rm = (butlast p, lo, Suc (last p) - lo)"
        by (rule smartRemove_cases)
      with px have "unadjust rm x' = x'"
        by (auto simp: unadjust_def dest: prefix_length_le)
      with un px that show False by simp
    qed
    from nodeAt_after_remove(2)[OF rem this] un at n'(1) show ?thesis by simp
  qed
  from ch un have "elementChain doc' nms x'" by (simp add: elementChain_after_remove[OF rem])
  with n' p P[OF n'(2)] exact show ?thesis by (auto simp: in_selectChain)
qed

section \<open>The removal loops empty what they were given\<close>

text \<open>
  When the references held by a loop cover every node that a query selects, the query
  selects nothing once the loop is through; and a query that selects nothing keeps
  selecting nothing.
\<close>

lemma heldPaths_simps [simp]:
  "heldPaths [] = []"
  "heldPaths ((None, n) # hs) = heldPaths hs"
  "heldPaths ((Some x, n) # hs) = x # heldPaths hs"
  by (simp_all add: heldPaths_def List.map_filter_simps)

lemma heldPaths_append [simp]: "heldPaths (as @ bs) = heldPaths as @ heldPaths bs"
  by (induction as) (simp_all add: heldPaths_def List.map_filter_simps split: option.splits)

lemma heldPaths_hold [simp]: "heldPaths (map hold rs) = map fst rs"
  by (induction rs) (simp_all add: hold_def)

lemma in_heldPaths: "x \<in> set (heldPaths hs) \<longleftrightarrow> (\<exists>n. (Some x, n) \<in> set hs)"
  by (induction hs) (auto simp: heldPaths_def List.map_filter_simps split: option.splits)

lemma adjustAll_simps [simp]:
  "length (adjustAll rm hs) = length hs"
  "map snd (adjustAll rm hs) = map snd hs"
  "take k (adjustAll rm hs) = adjustAll rm (take k hs)"
  "drop k (adjustAll rm hs) = adjustAll rm (drop k hs)"
  by (simp_all add: adjustAll_def take_map drop_map split_def comp_def)

lemma adjust_target:
  assumes "smartRemove p doc = Inr (doc', rm)"
  shows "adjust rm p = None"
proof -
  from assms obtain parent lo where ne: "p \<noteq> []"
    and lo: "lo = last p \<or> (Suc lo = last p \<and> nodeType (childNodes parent ! lo) = 3)"
    and rm: "rm = (butlast p, lo, Suc (last p) - lo)"
    by (rule smartRemove_cases)
  from ne have p: "p = butlast p @ [last p]" by simp
  have "adjust (butlast p, lo, Suc (last p) - lo) (butlast p @ [last p]) = None"
    using lo by (auto simp: adjust_def nth_append Let_def)
  with p rm show ?thesis by simp
qed

lemma cover_after_remove:
  assumes rem: "smartRemove p doc = Inr (doc', rm)"
    and P: "\<And>n m. shallow n = shallow m \<Longrightarrow> P n = P m"
    and cover: "fst ` set (filter (\<lambda>r. P (snd r)) (selectChain nms doc)) \<subseteq> insert p (set (heldPaths hs))"
  shows "fst ` set (filter (\<lambda>r. P (snd r)) (selectChain nms doc')) \<subseteq> set (heldPaths (adjustAll rm hs))"
proof
  fix x' assume "x' \<in> fst ` set (filter (\<lambda>r. P (snd r)) (selectChain nms doc'))"
  then obtain n' where "(x', n') \<in> set (filter (\<lambda>r. P (snd r)) (selectChain nms doc'))" by auto
  from selection_after_remove[OF rem P this] obtain n where
    "(unadjust rm x', n) \<in> set (filter (\<lambda>r. P (snd r)) (selectChain nms doc))" by blast
  then have "unadjust rm x' \<in> fst ` set (filter (\<lambda>r. P (snd r)) (selectChain nms doc))" by force
  with cover have "unadjust rm x' = p \<or> unadjust rm x' \<in> set (heldPaths hs)" by auto
  moreover have "unadjust rm x' \<noteq> p"
    using adjust_target[OF rem] adjust_unadjust[of rm x'] by auto
  ultimately obtain m where "(Some (unadjust rm x'), m) \<in> set hs" by (auto simp: in_heldPaths)
  then have "(Option.bind (Some (unadjust rm x')) (adjust rm), m) \<in> set (adjustAll rm hs)"
    by (force simp: adjustAll_def)
  then show "x' \<in> set (heldPaths (adjustAll rm hs))"
    by (auto simp: in_heldPaths adjust_unadjust)
qed

lemma cover_after_held:
  assumes step: "smartRemoveHeld r (doc, held) = Inr (doc1, held1)"
    and P: "\<And>n m. shallow n = shallow m \<Longrightarrow> P n = P m"
    and cover: "fst ` set (filter (\<lambda>r. P (snd r)) (selectChain nms doc))
                  \<subseteq> set (heldPaths (take (Suc j) (r # held)))"
  shows "fst ` set (filter (\<lambda>r. P (snd r)) (selectChain nms doc1)) \<subseteq> set (heldPaths (take j held1))"
proof (cases "fst r")
  case None
  with step have "doc1 = doc" "held1 = held" by (simp_all add: smartRemoveHeld_def)
  moreover from None have "r = (None, snd r)" by (cases r) simp
  ultimately show ?thesis using cover by (metis heldPaths_simps(2) take_Suc_Cons)
next
  case (Some p)
  with step obtain rm where rem: "smartRemove p doc = Inr (doc1, rm)" and h: "held1 = adjustAll rm held"
    by (auto simp: smartRemoveHeld_def split: sum.splits)
  from Some have r: "r = (Some p, snd r)" by (cases r) simp
  from cover have "fst ` set (filter (\<lambda>r. P (snd r)) (selectChain nms doc))
                  \<subseteq> insert p (set (heldPaths (take j held)))"
    by (subst (asm) r) simp
  from cover_after_remove[OF rem P this] show ?thesis by (simp add: h)
qed

lemma removeEach_cover:
  assumes "removeEach k (doc, hs) = Inr (doc_f, hs_f)"
    and P: "\<And>n m. shallow n = shallow m \<Longrightarrow> P n = P m"
    and "fst ` set (filter (\<lambda>r. P (snd r)) (selectChain nms doc)) \<subseteq> set (heldPaths (take (k + j) hs))"
  shows "fst ` set (filter (\<lambda>r. P (snd r)) (selectChain nms doc_f)) \<subseteq> set (heldPaths (take j hs_f))"
  using assms(1,3)
proof (induction k arbitrary: doc hs)
  case 0
  then show ?case by simp
next
  case (Suc k)
  show ?case
  proof (cases hs)
    case Nil
    with Suc.prems show ?thesis by simp
  next
    case (Cons r held)
    with Suc.prems(1) obtain doc1 held1 where
      step: "smartRemoveHeld r (doc, held) = Inr (doc1, held1)"
      and rest: "removeEach k (doc1, held1) = Inr (doc_f, hs_f)"
      by (auto split: sum.splits)
    from Suc.prems(2) have "fst ` set (filter (\<lambda>r. P (snd r)) (selectChain nms doc))
                  \<subseteq> set (heldPaths (take (Suc (k + j)) (r # held)))"
      by (simp add: Cons)
    from cover_after_held[OF step P this] Suc.IH[OF rest] show ?thesis by simp
  qed
qed

lemma removeEach_snd:
  assumes "removeEach k (doc, hs) = Inr (doc_f, hs_f)"
  shows "map snd hs_f = map snd (drop k hs)"
  using assms
proof (induction k arbitrary: doc hs)
  case 0
  then show ?case by simp
next
  case (Suc k)
  show ?case
  proof (cases hs)
    case Nil
    with Suc.prems show ?thesis by simp
  next
    case (Cons r held)
    with Suc.prems(1) obtain doc1 held1 where
      step: "smartRemoveHeld r (doc, held) = Inr (doc1, held1)"
      and rest: "removeEach k (doc1, held1) = Inr (doc_f, hs_f)"
      by (auto split: sum.splits)
    from step have "map snd held1 = map snd held"
      by (auto simp: smartRemoveHeld_def split: option.splits sum.splits)
    with Suc.IH[OF rest] show ?thesis by (simp add: Cons drop_map[symmetric])
  qed
qed

lemma selectElements_nodes:
  assumes "selectElements (XNodeSet xs) = Inr ys"
  shows "ys = xs"
  using assms by (auto simp: selectElements_def split: option.splits if_splits)

lemma cover_mono:
  assumes "A \<subseteq> set (heldPaths (take j bs))" "length as = n"
  shows "A \<subseteq> set (heldPaths (take (n + j) (as @ bs)))"
  using assms by auto

lemma cover_empty: "fst ` set xs \<subseteq> set (heldPaths (take 0 hs)) \<Longrightarrow> xs = []"
  by simp

lemma attributeEquals_shallow:
  "shallow n = shallow m \<Longrightarrow> attributeEquals lit v n = attributeEquals lit v m"
  by (simp add: shallow_def attributeEquals_def)

lemma attributeString_shallow:
  "shallow n = shallow m \<Longrightarrow> attributeString lit n = attributeString lit m"
  by (simp add: shallow_def attributeString_def)

lemma removeLocations_cover:
  assumes "removeLocations k (doc, hs) = Inr (doc_f, hs_f)"
    and P: "\<And>n m. shallow n = shallow m \<Longrightarrow> P n = P m"
    and "fst ` set (filter (\<lambda>r. P (snd r)) (selectChain nms doc)) \<subseteq> set (heldPaths (take (k + j) hs))"
  shows "fst ` set (filter (\<lambda>r. P (snd r)) (selectChain nms doc_f)) \<subseteq> set (heldPaths (take j hs_f))"
  using assms(1,3)
proof (induction k arbitrary: doc hs)
  case 0
  then show ?case by simp
next
  case (Suc k)
  show ?case
  proof (cases hs)
    case Nil
    with Suc.prems show ?thesis by simp
  next
    case (Cons r held)
    with Suc.prems(1) obtain an doc1 held1 where
      an: "attributeValue ''assemblyName'' (snd r) = Inr an"
      and step: "smartRemoveHeld r (doc, held) = Inr (doc1, held1)"
      by (auto split: sum.splits)
    from Suc.prems(2) have "fst ` set (filter (\<lambda>r. P (snd r)) (selectChain nms doc))
                  \<subseteq> set (heldPaths (take (Suc (k + j)) (r # held)))"
      by (simp add: Cons)
    from cover_after_held[OF step P this]
    have c1: "fst ` set (filter (\<lambda>r. P (snd r)) (selectChain nms doc1)) \<subseteq> set (heldPaths (take (k + j) held1))" .
    show ?thesis
    proof (cases "an = None \<or> an = Some []")
      case True
      with Suc.prems(1) an step have "removeLocations k (doc1, held1) = Inr (doc_f, hs_f)"
        by (auto simp: Cons)
      from Suc.IH[OF this c1] show ?thesis .
    next
      case False
      then obtain nm where nm: "an = Some nm" "nm \<noteq> []" by auto
      with Suc.prems(1) an step obtain refs doc2 held2 where
        refs: "selectElements (assemblyReferencesByNameSelector nm doc1) = Inr refs"
        and inner: "removeEach (length refs) (doc1, map hold refs @ held1) = Inr (doc2, held2)"
        and rest: "removeLocations k (doc2, held2) = Inr (doc_f, hs_f)"
        by (auto simp: Cons split: sum.splits)
      have "fst ` set (filter (\<lambda>r. P (snd r)) (selectChain nms doc1))
             \<subseteq> set (heldPaths (take (length refs + (k + j)) (map hold refs @ held1)))"
        by (rule cover_mono[OF c1]) simp
      from removeEach_cover[OF inner P this]
      have "fst ` set (filter (\<lambda>r. P (snd r)) (selectChain nms doc2)) \<subseteq> set (heldPaths (take (k + j) held2))" .
      from Suc.IH[OF rest this] show ?thesis .
    qed
  qed
qed

lemma removeLocations_references:
  assumes "removeLocations k (doc, hs) = Inr (doc_f, hs_f)"
    and "i < k" "i < length hs"
    and "attributeValue ''assemblyName'' (snd (hs ! i)) = Inr (Some nm)" "nm \<noteq> []"
  shows "assemblyReferencesByNameSelector nm doc_f = XNodeSet []"
  using assms(1-4)
proof (induction k arbitrary: doc hs i)
  case 0
  then show ?case by simp
next
  case (Suc k)
  let ?P = "attributeEquals ''assemblyName'' nm"
  let ?nms = "[''AssemblyReference'', ''AssemblyReferences'', ''PackageConfiguration'']"
  have P: "\<And>n m. shallow n = shallow m \<Longrightarrow> ?P n = ?P m" by (rule attributeEquals_shallow)
  from Suc.prems(3) obtain r held where Cons: "hs = r # held" by (cases hs) auto
  with Suc.prems(1) obtain an doc1 held1 where
    an: "attributeValue ''assemblyName'' (snd r) = Inr an"
    and step: "smartRemoveHeld r (doc, held) = Inr (doc1, held1)"
    by (auto split: sum.splits)
  from step have snd1: "map snd held1 = map snd held"
    by (auto simp: smartRemoveHeld_def split: option.splits sum.splits)
  then have len1: "length held1 = length held" by (metis length_map)
  show ?case
  proof (cases i)
    case 0
    with Suc.prems(4) an Cons have an': "an = Some nm" by simp
    with Suc.prems(1) an step assms(5) obtain refs doc2 held2 where
      refs: "selectElements (assemblyReferencesByNameSelector nm doc1) = Inr refs"
      and inner: "removeEach (length refs) (doc1, map hold refs @ held1) = Inr (doc2, held2)"
      and rest: "removeLocations k (doc2, held2) = Inr (doc_f, hs_f)"
      by (auto simp: Cons split: sum.splits)
    from refs have r: "refs = filter (\<lambda>r. ?P (snd r)) (selectChain ?nms doc1)"
      unfolding assemblyReferencesByNameSelector_def by (rule selectElements_nodes)
    have "fst ` set (filter (\<lambda>r. ?P (snd r)) (selectChain ?nms doc1))
            \<subseteq> set (heldPaths (take (length refs + 0) (map hold refs @ held1)))"
      by (simp add: r)
    from removeEach_cover[OF inner P this]
    have e: "fst ` set (filter (\<lambda>r. ?P (snd r)) (selectChain ?nms doc2)) \<subseteq> {}" by simp
    have "fst ` set (filter (\<lambda>r. ?P (snd r)) (selectChain ?nms doc2))
                 \<subseteq> set (heldPaths (take (k + 0) held2))"
      by (rule subset_trans[OF e]) simp
    from removeLocations_cover[OF rest P this]
    have "filter (\<lambda>r. ?P (snd r)) (selectChain ?nms doc_f) = []" by (rule cover_empty)
    then show ?thesis by (simp add: assemblyReferencesByNameSelector_def)
  next
    case (Suc i')
    with Suc.prems(2,3) Cons have i': "i' < k" "i' < length held" by simp_all
    from Suc.prems(4) Suc Cons have nm_held: "attributeValue ''assemblyName'' (snd (held ! i')) = Inr (Some nm)"
      by simp
    have s1: "snd (held1 ! i') = snd (held ! i')"
      using snd1 i' len1 by (metis nth_map)
    show ?thesis
    proof (cases "an = None \<or> an = Some []")
      case True
      with Suc.prems(1) an step have rest: "removeLocations k (doc1, held1) = Inr (doc_f, hs_f)"
        by (auto simp: Cons)
      show ?thesis
        by (rule Suc.IH[OF rest i'(1)]) (simp_all add: len1 i' s1 nm_held)
    next
      case False
      then obtain nm' where nm: "an = Some nm'" "nm' \<noteq> []" by auto
      with Suc.prems(1) an step obtain refs doc2 held2 where
        refs: "selectElements (assemblyReferencesByNameSelector nm' doc1) = Inr refs"
        and inner: "removeEach (length refs) (doc1, map hold refs @ held1) = Inr (doc2, held2)"
        and rest: "removeLocations k (doc2, held2) = Inr (doc_f, hs_f)"
        by (auto simp: Cons split: sum.splits)
      from removeEach_snd[OF inner] have snd2: "map snd held2 = map snd held1" by simp
      then have len2: "length held2 = length held1" by (metis length_map)
      have s2: "snd (held2 ! i') = snd (held1 ! i')"
        using snd2 i' len1 len2 by (metis nth_map)
      show ?thesis
        by (rule Suc.IH[OF rest i'(1)]) (simp_all add: len1 len2 i' s1 s2 nm_held)
    qed
  qed
qed

section \<open>The removal loops leave the other records alone\<close>

text \<open>
  When the records are elements without children, removing one of them (and the text
  before it) takes no other record with it, and the others stay as they are.
\<close>

lemma leaves_iff: "leaves C doc \<longleftrightarrow> (\<forall>r\<in>selected C doc. childNodes (snd r) = [])"
  by (auto simp: leaves_def selected_def list_all_iff)

lemma keeps_refl: "keeps C D doc doc"
  by (auto simp: keeps_def)

lemma keeps_trans:
  assumes ab: "keeps C D a b" and bc: "keeps C D b c"
  shows "keeps C D a c"
  unfolding keeps_def
proof (intro ballI conjI impI)
  fix ch r assume ch: "ch \<in> set C" and r: "r \<in> set (selectChain ch a)" and nd: "\<not> D (snd r)"
  from ab ch r nd have "snd r \<in> snd ` set (selectChain ch b)" unfolding keeps_def by blast
  then obtain r' where r': "r' \<in> set (selectChain ch b)" "snd r' = snd r" by auto
  with nd have "\<not> D (snd r')" by simp
  with bc ch r'(1) have "snd r' \<in> snd ` set (selectChain ch c)" unfolding keeps_def by blast
  with r'(2) show "snd r \<in> snd ` set (selectChain ch c)" by simp
next
  fix ch assume ch: "ch \<in> set C"
  from ab ch have 1: "snd ` set (selectChain ch b) \<subseteq> snd ` set (selectChain ch a)"
    unfolding keeps_def by blast
  from bc ch have 2: "snd ` set (selectChain ch c) \<subseteq> snd ` set (selectChain ch b)"
    unfolding keeps_def by blast
  from 2 1 show "snd ` set (selectChain ch c) \<subseteq> snd ` set (selectChain ch a)" by (rule subset_trans)
qed

lemma text_no_children: "nodeType n \<noteq> 1 \<Longrightarrow> nodeType n \<noteq> 9 \<Longrightarrow> childNodes n = []"
  by (cases n) simp_all

lemma leaf_no_descendant:
  assumes "nodeAt doc x = Some n" "childNodes n = []" "nodeAt doc (x @ y) = Some m"
  shows "y = []"
  using assms by (cases y) (simp_all add: nodeAt_append)

lemma removed_exists:
  assumes rem: "smartRemove p doc = Inr (doc', rm)"
  shows "\<exists>m. nodeAt doc p = Some m"
proof -
  from rem obtain parent lo where ne: "p \<noteq> []" and par: "nodeAt doc (butlast p) = Some parent"
    and i: "last p < length (childNodes parent)"
    by (rule smartRemove_cases)
  from nodeAt_snoc[OF par, of "last p"] i ne show ?thesis by simp
qed

lemma leaf_not_above:
  assumes rem: "smartRemove p doc = Inr (doc', rm)"
    and x: "nodeAt doc x = Some n" and leaf: "childNodes n = []"
  shows "\<not> prefix x (butlast p)"
proof
  assume "prefix x (butlast p)"
  then obtain y where y: "butlast p = x @ y" by (auto simp: prefix_def)
  from rem have ne: "p \<noteq> []" by (rule smartRemove_cases)
  then have p: "p = x @ (y @ [last p])" using y by (metis append_assoc append_butlast_last_id)
  from removed_exists[OF rem] obtain m where "nodeAt doc p = Some m" ..
  with p have "nodeAt doc (x @ (y @ [last p])) = Some m" by simp
  from leaf_no_descendant[OF x leaf this] show False by simp
qed

lemma adjust_defined:
  assumes rem: "smartRemove p doc = Inr (doc', rm)"
    and target: "nodeAt doc p = Some m0" "childNodes m0 = []"
    and x: "nodeAt doc x = Some n" "nodeType n = 1" "x \<noteq> p"
  shows "\<exists>x'. adjust rm x = Some x'"
proof (rule ccontr)
  assume "\<not> ?thesis"
  then have none: "adjust rm x = None" by simp
  from rem obtain parent lo where ne: "p \<noteq> []" and par: "nodeAt doc (butlast p) = Some parent"
    and i: "last p < length (childNodes parent)"
    and lo: "lo = last p \<or> (Suc lo = last p \<and> nodeType (childNodes parent ! lo) = 3)"
    and rm: "rm = (butlast p, lo, Suc (last p) - lo)"
    by (rule smartRemove_cases)
  let ?q = "butlast p"
  have "adjust (?q, lo, Suc (last p) - lo) x =
      (if prefix ?q x \<and> length ?q < length x
       then (if x ! length ?q < lo then Some x
             else if x ! length ?q < lo + (Suc (last p) - lo) then None
             else Some (?q @ (x ! length ?q - (Suc (last p) - lo)) # drop (Suc (length ?q)) x))
       else Some x)"
    by (simp add: adjust_def Let_def)
  with none rm have pre: "prefix ?q x" "length ?q < length x"
    and j: "lo \<le> x ! length ?q" "x ! length ?q < lo + (Suc (last p) - lo)"
    by (simp_all split: if_splits)
  define j where "j = x ! length ?q"
  define rest where "rest = drop (Suc (length ?q)) x"
  from prefix_decomp[OF pre] have xd: "x = ?q @ j # rest" by (simp add: j_def rest_def)
  from j lo have jr: "j = last p \<or> (j = lo \<and> Suc lo = last p \<and> nodeType (childNodes parent ! lo) = 3)"
    unfolding j_def by auto
  then show False
  proof
    assume "j = last p"
    with xd ne have "x = p @ rest" by simp
    with x(1) have "nodeAt doc (p @ rest) = Some n" by simp
    from leaf_no_descendant[OF target this] have "rest = []" .
    with \<open>x = p @ rest\<close> x(3) show False by simp
  next
    assume a: "j = lo \<and> Suc lo = last p \<and> nodeType (childNodes parent ! lo) = 3"
    let ?t = "childNodes parent ! lo"
    from a i have "lo < length (childNodes parent)" by simp
    with nodeAt_snoc[OF par, of lo] have t: "nodeAt doc (?q @ [lo]) = Some ?t" by simp
    from a have tl: "childNodes ?t = []" by (simp add: text_no_children)
    from xd a have "x = (?q @ [lo]) @ rest" by simp
    with x(1) have xx: "nodeAt doc ((?q @ [lo]) @ rest) = Some n" by simp
    from leaf_no_descendant[OF t tl xx] have "rest = []" .
    with xx t have "n = ?t" by simp
    with a x(2) show False by simp
  qed
qed

lemma selectChain_element:
  assumes "(x, n) \<in> set (selectChain c doc)" "c \<noteq> []"
  shows "nodeType n = 1"
  using assms by (cases c) (auto simp: in_selectChain nameTest_def)

lemma selectChain_nameTest:
  assumes "(x, n) \<in> set (selectChain (nm # c) doc)"
  shows "nameTest nm n"
  using assms by (auto simp: in_selectChain)

lemma selection_back:
  assumes rem: "smartRemove p doc = Inr (doc', rm)"
    and leaf: "\<forall>r\<in>set (selectChain c doc). childNodes (snd r) = []"
    and mem: "(x', n') \<in> set (selectChain c doc')"
  shows "(unadjust rm x', n') \<in> set (selectChain c doc)"
proof -
  from mem have "(x', n') \<in> set (filter (\<lambda>r. (\<lambda>n. True) (snd r)) (selectChain c doc'))" by simp
  from selection_after_remove[OF rem _ this] obtain n where
    n: "(unadjust rm x', n) \<in> set (selectChain c doc)" by auto
  with leaf have l: "childNodes n = []" by auto
  from n have at: "nodeAt doc (unadjust rm x') = Some n" by (simp add: in_selectChain)
  have np: "\<not> prefix x' (butlast p)"
  proof
    assume pre: "prefix x' (butlast p)"
    from rem obtain lo where rm: "rm = (butlast p, lo, Suc (last p) - lo)" by (rule smartRemove_cases)
    from pre have "length x' \<le> length (butlast p)" by (rule prefix_length_le)
    with rm have "unadjust rm x' = x'" by (simp add: unadjust_def)
    with at have "nodeAt doc x' = Some n" by simp
    from leaf_not_above[OF rem this l] pre show False by simp
  qed
  from nodeAt_after_remove(2)[OF rem np] mem at have "n' = n" by (simp add: in_selectChain)
  with n show ?thesis by simp
qed

lemma selection_forward:
  assumes rem: "smartRemove p doc = Inr (doc', rm)"
    and mem: "(x, n) \<in> set (selectChain c doc)" and leaf: "childNodes n = []"
    and adj: "adjust rm x = Some x'"
  shows "(x', n) \<in> set (selectChain c doc')"
proof -
  from mem have m: "(x, n) \<in> set (filter (\<lambda>r. (\<lambda>n. True) (snd r)) (selectChain c doc))" by simp
  from selection_survives[OF rem _ m adj] obtain n' where
    n': "(x', n') \<in> set (selectChain c doc')" "\<not> prefix x (butlast p) \<longrightarrow> n' = n" by auto
  from mem have "nodeAt doc x = Some n" by (simp add: in_selectChain)
  from leaf_not_above[OF rem this leaf] n' show ?thesis by simp
qed

lemma validHeld_take: "validHeld C D doc (take (Suc j) (r # held)) \<Longrightarrow> validHeld C D doc (take j held)"
  by (simp add: validHeld_def)

lemma validHeld_append:
  "validHeld C D doc (as @ bs) \<longleftrightarrow> validHeld C D doc as \<and> validHeld C D doc bs"
  by (auto simp: validHeld_def)

lemma held_step:
  assumes step: "smartRemoveHeld r (doc, held) = Inr (doc1, held1)"
    and C: "[] \<notin> set C" and L: "leaves C doc"
    and V: "validHeld C D doc (take (Suc j) (r # held))"
  shows "leaves C doc1 \<and> validHeld C D doc1 (take j held1) \<and> keeps C D doc doc1"
proof (cases "fst r")
  case None
  with step have "doc1 = doc" "held1 = held" by (simp_all add: smartRemoveHeld_def)
  with L validHeld_take[OF V] show ?thesis by (simp add: keeps_refl)
next
  case (Some p)
  with step obtain rm where rem: "smartRemove p doc = Inr (doc1, rm)" and h: "held1 = adjustAll rm held"
    by (auto simp: smartRemoveHeld_def split: sum.splits)
  from V Some have D0: "D (snd r)" and "(p, snd r) \<in> selected C doc"
    by (simp_all add: validHeld_def)
  then obtain c0 where c0: "c0 \<in> set C" "(p, snd r) \<in> set (selectChain c0 doc)"
    by (auto simp: selected_def)
  then have at0: "nodeAt doc p = Some (snd r)" by (simp add: in_selectChain)
  from L c0 have leaf0: "childNodes (snd r) = []" by (force simp: leaves_iff selected_def)
  have Lc: "\<forall>r\<in>set (selectChain c doc). childNodes (snd r) = []" if "c \<in> set C" for c
    using L that by (force simp: leaves_iff selected_def)
  have bk: "(unadjust rm x', n') \<in> set (selectChain c doc)"
    if "c \<in> set C" "(x', n') \<in> set (selectChain c doc1)" for c x' n'
    using selection_back[OF rem Lc[OF that(1)] that(2)] .
  have 1: "leaves C doc1"
    unfolding leaves_iff selected_def
  proof (clarify)
    fix c x' n' assume c: "c \<in> set C" and m: "(x', n') \<in> set (selectChain c doc1)"
    from bk[OF c m] Lc[OF c] show "childNodes (snd (x', n')) = []" by force
  qed
  have 2: "validHeld C D doc1 (take j held1)"
    unfolding validHeld_def
  proof (intro ballI conjI allI impI)
    fix h' assume "h' \<in> set (take j held1)"
    then have "h' \<in> set (adjustAll rm (take j held))" by (simp add: h)
    then obtain q m where qm: "(q, m) \<in> set (take j held)" and h': "h' = (Option.bind q (adjust rm), m)"
      by (auto simp: adjustAll_def)
    from V qm have Dm: "D m" and sel: "\<forall>x. q = Some x \<longrightarrow> (x, m) \<in> selected C doc"
      by (auto simp: validHeld_def)
    from Dm h' show "D (snd h')" by simp
    fix x' assume "fst h' = Some x'"
    with h' obtain x where q: "q = Some x" and adj: "adjust rm x = Some x'"
      by (cases q) auto
    with sel obtain c where c: "c \<in> set C" "(x, m) \<in> set (selectChain c doc)"
      by (auto simp: selected_def)
    from Lc[OF c(1)] c(2) have "childNodes m = []" by force
    from selection_forward[OF rem c(2) this adj] c(1) h'
    show "(x', snd h') \<in> selected C doc1" by (auto simp: selected_def)
  qed
  have 3: "keeps C D doc doc1"
    unfolding keeps_def
  proof (intro ballI conjI impI subsetI)
    fix c r0 assume c: "c \<in> set C" and r0: "r0 \<in> set (selectChain c doc)" and nd: "\<not> D (snd r0)"
    obtain x n where xn: "r0 = (x, n)" by (cases r0)
    from r0 xn have mem: "(x, n) \<in> set (selectChain c doc)" by simp
    then have at: "nodeAt doc x = Some n" by (simp add: in_selectChain)
    from c C have "c \<noteq> []" by auto
    from selectChain_element[OF mem this] have el: "nodeType n = 1" .
    from Lc[OF c] mem have leaf: "childNodes n = []" by force
    from nd D0 xn have "n \<noteq> snd r" by auto
    with at at0 have "x \<noteq> p" by auto
    from adjust_defined[OF rem at0 leaf0 at el this] obtain x' where "adjust rm x = Some x'" ..
    from selection_forward[OF rem mem leaf this] xn
    show "snd r0 \<in> snd ` set (selectChain c doc1)" by force
  next
    fix c n' assume c: "c \<in> set C" and "n' \<in> snd ` set (selectChain c doc1)"
    then obtain x' where "(x', n') \<in> set (selectChain c doc1)" by auto
    from bk[OF c this] show "n' \<in> snd ` set (selectChain c doc)" by force
  qed
  from 1 2 3 show ?thesis by simp
qed

lemma removeEach_inv:
  assumes "removeEach k (doc, hs) = Inr (doc_f, hs_f)"
    and C: "[] \<notin> set C" and "leaves C doc"
    and "validHeld C D doc (take (k + j) hs)"
  shows "leaves C doc_f \<and> validHeld C D doc_f (take j hs_f) \<and> keeps C D doc doc_f"
  using assms(1,3,4)
proof (induction k arbitrary: doc hs)
  case 0
  then show ?case by (simp add: keeps_refl)
next
  case (Suc k)
  show ?case
  proof (cases hs)
    case Nil
    with Suc.prems show ?thesis by (simp add: keeps_refl validHeld_def)
  next
    case (Cons r held)
    with Suc.prems(1) obtain doc1 held1 where
      step: "smartRemoveHeld r (doc, held) = Inr (doc1, held1)"
      and rest: "removeEach k (doc1, held1) = Inr (doc_f, hs_f)"
      by (auto split: sum.splits)
    from Suc.prems(3) have "validHeld C D doc (take (Suc (k + j)) (r # held))"
      by (simp add: Cons)
    from held_step[OF step C Suc.prems(2) this]
    have 1: "leaves C doc1" "validHeld C D doc1 (take (k + j) held1)" "keeps C D doc doc1"
      by simp_all
    from Suc.IH[OF rest 1(1,2)] keeps_trans[OF 1(3)] show ?thesis by simp
  qed
qed

lemma smartRemoveHeld_snd:
  "smartRemoveHeld r (doc, held) = Inr (doc1, held1) \<Longrightarrow> map snd held1 = map snd held"
  by (auto simp: smartRemoveHeld_def split: option.splits sum.splits)

lemma removeLocations_inv:
  assumes "removeLocations k (doc, hs) = Inr (doc_f, hs_f)"
    and C: "[] \<notin> set C" and "leaves C doc"
    and refC: "[''AssemblyReference'', ''AssemblyReferences'', ''PackageConfiguration''] \<in> set C"
    and closure: "\<And>m nm ref. m \<in> M \<Longrightarrow> attributeValue ''assemblyName'' m = Inr (Some nm)
          \<Longrightarrow> nm \<noteq> [] \<Longrightarrow> nameTest ''AssemblyReference'' ref
          \<Longrightarrow> attributeEquals ''assemblyName'' nm ref \<Longrightarrow> D ref"
    and "set (map snd (take k hs)) \<subseteq> M"
    and "validHeld C D doc (take (k + j) hs)"
  shows "leaves C doc_f \<and> validHeld C D doc_f (take j hs_f) \<and> keeps C D doc doc_f"
  using assms(1,3,6,7)
proof (induction k arbitrary: doc hs)
  case 0
  then show ?case by (simp add: keeps_refl)
next
  case (Suc k)
  let ?refChain = "[''AssemblyReference'', ''AssemblyReferences'', ''PackageConfiguration'']"
  show ?case
  proof (cases hs)
    case Nil
    with Suc.prems show ?thesis by (simp add: keeps_refl validHeld_def)
  next
    case (Cons r held)
    with Suc.prems(1) obtain an doc1 held1 where
      an: "attributeValue ''assemblyName'' (snd r) = Inr an"
      and step: "smartRemoveHeld r (doc, held) = Inr (doc1, held1)"
      by (auto split: sum.splits)
    from Suc.prems(4) have "validHeld C D doc (take (Suc (k + j)) (r # held))"
      by (simp add: Cons)
    from held_step[OF step C Suc.prems(2) this]
    have 1: "leaves C doc1" "validHeld C D doc1 (take (k + j) held1)" "keeps C D doc doc1"
      by simp_all
    from Suc.prems(3) Cons have rM: "snd r \<in> M" and M0: "set (map snd (take k held)) \<subseteq> M"
      by simp_all
    from M0 smartRemoveHeld_snd[OF step] have M1: "set (map snd (take k held1)) \<subseteq> M"
      by (simp add: take_map[symmetric])
    show ?thesis
    proof (cases "an = None \<or> an = Some []")
      case True
      with Suc.prems(1) an step have "removeLocations k (doc1, held1) = Inr (doc_f, hs_f)"
        by (auto simp: Cons)
      from Suc.IH[OF this 1(1) M1 1(2)] keeps_trans[OF 1(3)] show ?thesis by simp
    next
      case False
      then obtain nm where nm: "an = Some nm" "nm \<noteq> []" by auto
      with Suc.prems(1) an step obtain refs doc2 held2 where
        refs: "selectElements (assemblyReferencesByNameSelector nm doc1) = Inr refs"
        and inner: "removeEach (length refs) (doc1, map hold refs @ held1) = Inr (doc2, held2)"
        and rest: "removeLocations k (doc2, held2) = Inr (doc_f, hs_f)"
        by (auto simp: Cons split: sum.splits)
      from refs have r: "refs = filter (\<lambda>r. attributeEquals ''assemblyName'' nm (snd r))
                                  (selectChain ?refChain doc1)"
        unfolding assemblyReferencesByNameSelector_def by (rule selectElements_nodes)
      have vr: "validHeld C D doc1 (map hold refs)"
        unfolding validHeld_def
      proof (intro ballI conjI allI impI)
        fix h assume "h \<in> set (map hold refs)"
        then obtain x n where h: "h = (Some x, n)" and xn: "(x, n) \<in> set refs"
          by (auto simp: hold_def)
        from xn r have mem: "(x, n) \<in> set (selectChain ?refChain doc1)"
          and eq: "attributeEquals ''assemblyName'' nm n" by simp_all
        from selectChain_nameTest[OF mem] have "nameTest ''AssemblyReference'' n" .
        from closure[OF rM _ nm(2) this eq] an nm h show "D (snd h)" by simp
        fix y assume "fst h = Some y"
        with h mem refC show "(y, snd h) \<in> selected C doc1" by (auto simp: selected_def)
      qed
      have "take (length refs + (k + j)) (map hold refs @ held1) = map hold refs @ take (k + j) held1"
        by simp
      with vr 1(2) have "validHeld C D doc1 (take (length refs + (k + j)) (map hold refs @ held1))"
        by (simp add: validHeld_append)
      from removeEach_inv[OF inner C 1(1) this]
      have 2: "leaves C doc2" "validHeld C D doc2 (take (k + j) held2)" "keeps C D doc1 doc2"
        by simp_all
      from removeEach_snd[OF inner] have "map snd held2 = map snd held1" by simp
      with M1 have M2: "set (map snd (take k held2)) \<subseteq> M" by (simp add: take_map[symmetric])
      from Suc.IH[OF rest 2(1) M2 2(2)] keeps_trans[OF keeps_trans[OF 1(3) 2(3)]]
      show ?thesis by simp
    qed
  qed
qed

section \<open>Names with a namespace prefix\<close>

text \<open>
  An unprefixed name in a query does not match an element or attribute whose prefix is
  bound to a namespace; it matches one without a prefix in whatever namespace, and one
  whose prefix is bound to nothing. Letter case plays no part.
\<close>

lemma name_tests_on_prefixed_names:
  "\<not> nameTest ''clear'' (ElementNS (js ''urn:p'') (js ''p:clear'') [] [])
   \<and> nameTest ''clear'' (Element (js ''q:clear'') [] [])
   \<and> nameTest ''clear'' (ElementNS (js ''urn:d'') (js ''Clear'') [] [])
   \<and> attributeValue ''key'' (Element (js ''add'') [(js ''urn:p'', js ''p:key'', js ''X'')] []) = Inr None
   \<and> attributeValue ''key'' (Element (js ''add'') [([], js ''KEY'', js ''X'')] []) = Inr (Some (js ''X''))"
  by code_simp

text \<open>
  So a \<open>clear\<close> with a bound prefix is no marker and is met as an unexpected element by
  the second loop, and a \<open>packageSources\<close> with a bound prefix is not the container.
\<close>

lemma prefixed_clear_is_no_marker:
  "fst (mergeIntoDocument (sampleHost [LF]) [sourceA]
         (Document [Element (js ''configuration'')
             [(js ''http://www.w3.org/2000/xmlns/'', js ''xmlns:p'', js ''urn:p'')]
             [Element (js ''packageSources'') []
                [ElementNS (js ''urn:p'') (js ''p:clear'') [] []]]] None))
     = Inl (MalformedContainer (js ''p:clear''))"
  by code_simp

lemma prefixed_container_is_skipped:
  "fst (mergeIntoDocument (sampleHost [LF]) [sourceX False]
         (Document [Element (js ''configuration'')
             [(js ''http://www.w3.org/2000/xmlns/'', js ''xmlns:p'', js ''urn:p'')]
             [ElementNS (js ''urn:p'') (js ''p:packageSources'') [] [],
              Element (js ''packageSources'') []
                [Element (js ''add'') [([], js ''key'', js ''X''), ([], js ''value'', js ''http://x'')] []]]] None))
     = Inl (UpdateNotAllowed (js ''X'') (js ''/injected'') (Some (js ''http://x'')))"
  by code_simp

lemma default_namespace_matches:
  "map fst (case packageSourcesSelector
         (Document [ElementNS (js ''urn:d'') (js ''configuration'')
             [(js ''http://www.w3.org/2000/xmlns/'', js ''xmlns'', js ''urn:d'')]
             [ElementNS (js ''urn:d'') (js ''PACKAGESOURCES'') [] []]] None) of
       XNodeSet nodes \<Rightarrow> nodes | _ \<Rightarrow> [])
     = [[0, 0]]"
  by code_simp

section \<open>A turn that fails after touching the file system\<close>

text \<open>
  The entry is found in a second \<open>Packages\<close> element, so \<open>replaceChild\<close> on the first one
  throws; the directory was removed before that, and stays removed.
\<close>

lemma failing_turn_keeps_removal:
  "(case injectIntoDocument (sampleHost [LF]) [sampleUpdate] [js ''/bonsai/Packages/Foo.1.0.0'']
          (Document [Element (js ''PackageConfiguration'') []
             [Element (js ''Packages'') [] [],
              Element (js ''Packages'') []
                [record0 ''Package'' [(''id'', ''Foo''), (''version'', ''1.0.0'')]]]] None) of
      (r, st) \<Rightarrow> (r, directories st, effects st))
   = (Inl NotFoundError, [], [RemoveDirectory (js ''/bonsai/Packages/Foo.1.0.0'')])"
  by code_simp

section \<open>A version that ends in a separator\<close>

text \<open>
  On the sample host the paths are normalised by \<open>path.join\<close> and \<open>path.relative\<close>: for the
  version \<open>1.0.0/\<close> the location is \<open>Packages/Foo.1.0.0/\<close> all the same, and the assembly
  location under it goes.
\<close>

lemma version_with_final_separator:
  "replacePackagePathLocal (sampleHost [LF]) (js ''Foo'') (js ''1.0.0/'') = js ''Packages/Foo.1.0.0/''
   \<and> (case injectIntoDocument (sampleHost [LF]) [sampleUpdate] []
          (Document [Element (js ''PackageConfiguration'') []
             [container0 ''Packages''
                [record0 ''Package'' [(''id'', ''Foo''), (''version'', ''1.0.0/'')]],
              container0 ''AssemblyLocations''
                [record0 ''AssemblyLocation''
                   [(''assemblyName'', ''Foo''), (''location'', ''Packages/Foo.1.0.0/a.dll'')]]]] None) of
      (r, st) \<Rightarrow> (r, selectChain [''AssemblyLocation'', ''AssemblyLocations'', ''PackageConfiguration'']
                        (bonsaiConfig st),
                  effects st))
   = (Inr (), [], [WarnMissing (js ''/bonsai/Packages/Foo.1.0.0/'')])"
  by code_simp
section \<open>The location of a replaced package\<close>

lemma replaceAll_backslash: "replaceAll s [92] [47] = translateSeparators s"
  by (induction s) (simp_all add: replaceAll.simps(2) translateSeparators_def)

lemma translateSeparators_no_backslash: "92 \<notin> set (translateSeparators s)"
  by (auto simp: translateSeparators_def)

lemma translateSeparators_append:
  "translateSeparators (a @ b) = translateSeparators a @ translateSeparators b"
  by (simp add: translateSeparators_def)

lemma replacePackagePathLocal_eq:
  "replacePackagePathLocal p rid rv =
     translateSeparators (path_relative p (rootPath p) (replacePackagePath p rid rv)) @ js ''/''"
  by (simp add: replacePackagePathLocal_def replaceAll_backslash)

lemma replacePackagePathLocal_forward: "92 \<notin> set (replacePackagePathLocal p rid rv)"
  by (simp add: replacePackagePathLocal_eq translateSeparators_no_backslash js_def)

lemma replacePackagePathLocal_packages:
  assumes "path_relative p (rootPath p) (replacePackagePath p rid rv)
             = js ''Packages'' @ sep @ rid @ js ''.'' @ rv"
    and "sep = js ''/'' \<or> sep = [92]"
  shows "replacePackagePathLocal p rid rv =
           js ''Packages/'' @ translateSeparators rid @ js ''.'' @ translateSeparators rv @ js ''/''"
proof -
  from assms(2) have sep: "translateSeparators sep = js ''/''"
    by (auto simp: translateSeparators_def js_def)
  have "translateSeparators (js ''Packages'') = js ''Packages''"
       "translateSeparators (js ''.'') = js ''.''"
    by (simp_all add: translateSeparators_def js_def)
  with sep show ?thesis
    by (simp add: replacePackagePathLocal_eq assms(1) translateSeparators_append) (simp add: js_def)
qed

lemma in_relatedAssemblyNames:
  "nm \<in> set (relatedAssemblyNames loc doc) \<longleftrightarrow>
     nm \<noteq> [] \<and> (\<exists>r\<in>set (nodeSet (assemblyLocationsByPackageLocationSelector loc doc)).
        attributeValue ''assemblyName'' (snd r) = Inr (Some nm))"
  unfolding relatedAssemblyNames_def
  by (force split: sum.splits option.splits if_splits)

section \<open>Replacing an entry of the manifest\<close>

text \<open>
  The steps of a successful turn of the loop that found an entry for the package.
\<close>

lemma injectPackage_replace_cases:
  assumes found: "select1Element (packageSelector (id' pkg) (bonsaiConfig st)) = Inr (Some replaceNode)"
    and rid: "attributeValue ''id'' (snd replaceNode) = Inr (Some rid)"
    and rv: "attributeValue ''version'' (snd replaceNode) = Inr (Some rv)"
    and ok: "injectPackage p indent beforeLast pkg st = (Inr (), st')"
  obtains locs doc2 held2 libs doc3 held3 where
    "selectElements (assemblyLocationsByPackageLocationSelector (replacePackagePathLocal p rid rv)
        (updateAt (\<lambda>old. newPackageElement pkg) (fst replaceNode) (bonsaiConfig st))) = Inr locs"
    "removeLocations (length locs)
        (updateAt (\<lambda>old. newPackageElement pkg) (fst replaceNode) (bonsaiConfig st),
         map hold locs @ [packagesNode st]) = Inr (doc2, held2)"
    "selectElements (libraryFolderByPackageLocationSelector (replacePackagePathLocal p rid rv) doc2) = Inr libs"
    "removeEach (length libs) (doc2, map hold libs @ held2) = Inr (doc3, held3)"
    "bonsaiConfig st' = doc3"
    "effects st' = effects st @
       [if fs_existsSync p (directories st) (replacePackagePath p rid rv)
        then RemoveDirectory (replacePackagePath p rid rv)
        else WarnMissing (replacePackagePath p rid rv)]"
    "directories st' =
       (if fs_existsSync p (directories st) (replacePackagePath p rid rv)
        then fs_rmSync p (directories st) (replacePackagePath p rid rv)
        else directories st)"
proof -
  define dir where "dir = replacePackagePath p rid rv"
  define loc where "loc = replacePackagePathLocal p rid rv"
  define st1 where "st1 = (if fs_existsSync p (directories st) dir
                 then st\<lparr> directories := fs_rmSync p (directories st) dir,
                          effects := effects st @ [RemoveDirectory dir] \<rparr>
                 else st\<lparr> effects := effects st @ [WarnMissing dir] \<rparr>)"
  have st1: "bonsaiConfig st1 = bonsaiConfig st" "packagesNode st1 = packagesNode st"
    "effects st1 = effects st @
       [if fs_existsSync p (directories st) dir then RemoveDirectory dir else WarnMissing dir]"
    "directories st1 =
       (if fs_existsSync p (directories st) dir then fs_rmSync p (directories st) dir
        else directories st)"
    by (simp_all add: st1_def)
  define body where "body =
     (case replaceChild (newPackageElement pkg) replaceNode (packagesNode st1) (bonsaiConfig st1) of
        Inl e \<Rightarrow> (Inl e, st1)
      | Inr doc1 \<Rightarrow>
     (case selectElements (assemblyLocationsByPackageLocationSelector loc doc1) of
        Inl e \<Rightarrow> (Inl e, st1\<lparr> bonsaiConfig := doc1 \<rparr>)
      | Inr relatedAssemblyLocations \<Rightarrow>
     (case removeLocations (length relatedAssemblyLocations)
             (doc1, map hold relatedAssemblyLocations @ [packagesNode st1]) of
        Inl e \<Rightarrow> (Inl e, st1\<lparr> bonsaiConfig := doc1 \<rparr>)
      | Inr (doc2, held2) \<Rightarrow>
     (case selectElements (libraryFolderByPackageLocationSelector loc doc2) of
        Inl e \<Rightarrow> (Inl e, st1\<lparr> bonsaiConfig := doc1 \<rparr>)
      | Inr relatedLibraryFolders \<Rightarrow>
     (case removeEach (length relatedLibraryFolders)
             (doc2, map hold relatedLibraryFolders @ held2) of
        Inl e \<Rightarrow> (Inl e, st1\<lparr> bonsaiConfig := doc1 \<rparr>)
      | Inr (doc3, held3) \<Rightarrow>
          (Inr (), st1\<lparr> bonsaiConfig := doc3,
                   packagesNode := (case held3 of h # hs \<Rightarrow> h | [] \<Rightarrow> packagesNode st1) \<rparr>))))))"
  have "injectPackage p indent beforeLast pkg st =
     (if rid = [] \<or> rv = [] then (Inl AssertionError, st)
      else if toUpperCase (id' pkg) \<noteq> toUpperCase rid then (Inl AssertionError, st)
      else body)"
    unfolding body_def st1_def loc_def dir_def injectPackage_def Let_def
    by (simp only: found rid rv sum.case option.case)
  with ok have b: "body = (Inr (), st')" by (simp split: if_splits)
  then obtain doc1 where rc: "replaceChild (newPackageElement pkg) replaceNode (packagesNode st1) (bonsaiConfig st1) = Inr doc1"
    unfolding body_def by (cases "replaceChild (newPackageElement pkg) replaceNode (packagesNode st1) (bonsaiConfig st1)") simp_all
  then have doc1: "doc1 = updateAt (\<lambda>old. newPackageElement pkg) (fst replaceNode) (bonsaiConfig st)"
    by (simp add: replaceChild_def st1 split: if_splits)
  from b rc obtain locs where locs: "selectElements (assemblyLocationsByPackageLocationSelector loc doc1) = Inr locs"
    unfolding body_def by (cases "selectElements (assemblyLocationsByPackageLocationSelector loc doc1)") simp_all
  from b rc locs obtain doc2 held2 where rl:
    "removeLocations (length locs) (doc1, map hold locs @ [packagesNode st1]) = Inr (doc2, held2)"
    unfolding body_def
    by (cases "removeLocations (length locs) (doc1, map hold locs @ [packagesNode st1])") auto
  from b rc locs rl obtain libs where libs: "selectElements (libraryFolderByPackageLocationSelector loc doc2) = Inr libs"
    unfolding body_def by (cases "selectElements (libraryFolderByPackageLocationSelector loc doc2)") simp_all
  from b rc locs rl libs obtain doc3 held3 where re:
    "removeEach (length libs) (doc2, map hold libs @ held2) = Inr (doc3, held3)"
    unfolding body_def
    by (cases "removeEach (length libs) (doc2, map hold libs @ held2)") auto
  from b rc locs rl libs re have st': "st' = st1\<lparr> bonsaiConfig := doc3,
                   packagesNode := (case held3 of h # hs \<Rightarrow> h | [] \<Rightarrow> packagesNode st1) \<rparr>"
    unfolding body_def by simp
  show thesis
  proof (rule that[of locs doc2 held2 libs doc3 held3])
    show "selectElements (assemblyLocationsByPackageLocationSelector (replacePackagePathLocal p rid rv)
        (updateAt (\<lambda>old. newPackageElement pkg) (fst replaceNode) (bonsaiConfig st))) = Inr locs"
      using locs by (simp add: loc_def doc1)
    show "removeLocations (length locs)
        (updateAt (\<lambda>old. newPackageElement pkg) (fst replaceNode) (bonsaiConfig st),
         map hold locs @ [packagesNode st]) = Inr (doc2, held2)"
      using rl by (simp add: doc1 st1)
    show "selectElements (libraryFolderByPackageLocationSelector (replacePackagePathLocal p rid rv) doc2) = Inr libs"
      using libs by (simp add: loc_def)
    show "removeEach (length libs) (doc2, map hold libs @ held2) = Inr (doc3, held3)" by (rule re)
    show "bonsaiConfig st' = doc3" by (simp add: st')
    show "effects st' = effects st @
       [if fs_existsSync p (directories st) (replacePackagePath p rid rv)
        then RemoveDirectory (replacePackagePath p rid rv)
        else WarnMissing (replacePackagePath p rid rv)]"
      by (simp add: st' st1 dir_def)
    show "directories st' =
       (if fs_existsSync p (directories st) (replacePackagePath p rid rv)
        then fs_rmSync p (directories st) (replacePackagePath p rid rv)
        else directories st)"
      by (simp add: st' st1 dir_def)
  qed
qed

lemma nodeSet_XNodeSet [simp]: "nodeSet (XNodeSet xs) = xs"
  by (simp add: nodeSet_def)

lemma cover_start:
  "fst ` set xs \<subseteq> set (heldPaths (take (length xs + 0) (map hold xs @ hs)))"
  by simp

lemma validHeld_start:
  assumes "\<And>x n. (x, n) \<in> set xs \<Longrightarrow> D n \<and> (x, n) \<in> selected C doc"
  shows "validHeld C D doc (take (length xs + 0) (map hold xs @ hs))"
  using assms by (auto simp: validHeld_def hold_def)

lemma keeps_kept:
  assumes "keeps C D doc doc'" "c \<in> set C" "n \<in> snd ` set (selectChain c doc)" "\<not> D n"
  shows "n \<in> snd ` set (selectChain c doc')"
proof -
  from assms(3) obtain r where "r \<in> set (selectChain c doc)" "snd r = n" by auto
  with assms(1,2,4) show ?thesis unfolding keeps_def by blast
qed




end
